theory Spec2Isabelle
  imports Main "HOL-Library.Word" "HOL-Library.Monad_Syntax"
begin

section \<open>Data model\<close>

text \<open>
  \<^verbatim>\<open>struct VoidRef_t { uint32_t Key; };\<close> (VoidRef.h): the key is the only payload.
\<close>

datatype VoidRef_t = VoidRef (Key: "32 word")

text \<open>
  A node \<^verbatim>\<open>LLTB_t\<close> has the fields \<^verbatim>\<open>Ref\<close>, \<^verbatim>\<open>IsRed\<close>, \<^verbatim>\<open>pLeft\<close> and \<^verbatim>\<open>pRight\<close>; a
  pointer to a node is either \<^verbatim>\<open>nullptr\<close> (\<open>Null\<close>) or owns the node it points to. No node
  is shared and there are no back pointers, so a pointer is modelled by the tree below it.
  The selectors \<open>pLeft\<close> and \<open>pRight\<close> are only applied behind the null checks that the
  source performs; a function that dereferences its argument without a check returns
  \<open>None\<close> on \<open>Null\<close>.
\<close>

datatype LLTB_t = Null | Node (Ref: VoidRef_t) (Red: bool) (pLeft: LLTB_t) (pRight: LLTB_t)
  where
    "pLeft Null = Null"
  | "pRight Null = Null"

section \<open>Primitives\<close>

text \<open>\<^verbatim>\<open>IsRed\<close>: a null link counts as black.\<close>

fun IsRed :: "LLTB_t \<Rightarrow> bool" where
  "IsRed Null = False"
| "IsRed (Node ref red l r) = red"

text \<open>\<^verbatim>\<open>NewNode\<close> followed by \<^verbatim>\<open>pNode->Ref = ref\<close>: a red leaf.\<close>

definition NewNode :: "VoidRef_t \<Rightarrow> LLTB_t" where
  "NewNode ref = Node ref True Null Null"

text \<open>
  \<^verbatim>\<open>RotateLeft\<close> reads \<^verbatim>\<open>pNode->pRight\<close> and writes through it: both pointers are
  dereferenced, so the result is \<open>None\<close> when either is null.
\<close>

fun RotateLeft :: "LLTB_t \<Rightarrow> LLTB_t option" where
  "RotateLeft (Node ref red l (Node tref tred tleft tright)) =
     Some (Node tref red (Node ref True l tleft) tright)"
| "RotateLeft _ = None"

fun RotateRight :: "LLTB_t \<Rightarrow> LLTB_t option" where
  "RotateRight (Node ref red (Node tref tred tleft tright) r) =
     Some (Node tref red tleft (Node ref True tright r))"
| "RotateRight _ = None"

text \<open>\<^verbatim>\<open>ColorFlip\<close> toggles the node and each child that is present.\<close>

fun toggle :: "LLTB_t \<Rightarrow> LLTB_t" where
  "toggle Null = Null"
| "toggle (Node ref red l r) = Node ref (\<not> red) l r"

fun ColorFlip :: "LLTB_t \<Rightarrow> LLTB_t option" where
  "ColorFlip Null = None"
| "ColorFlip (Node ref red l r) = Some (Node ref (\<not> red) (toggle l) (toggle r))"

section \<open>Insertion\<close>

text \<open>
  \<^verbatim>\<open>InsertRec\<close>, compiled without \<^verbatim>\<open>USE_234_TREE\<close>. The three conditional statements
  after the recursion are kept as three steps on the current \<^verbatim>\<open>pNode\<close>.
\<close>

fun InsertRec :: "LLTB_t \<Rightarrow> VoidRef_t \<Rightarrow> LLTB_t option" where
  "InsertRec Null ref = Some (NewNode ref)"
| "InsertRec (Node nref red l r) ref = do {
     n0 \<leftarrow> (if Key ref = Key nref then Some (Node ref red l r)
            else if Key ref < Key nref
              then do { l' \<leftarrow> InsertRec l ref; Some (Node nref red l' r) }
              else do { r' \<leftarrow> InsertRec r ref; Some (Node nref red l r') });
     n1 \<leftarrow> (if IsRed (pRight n0) \<and> \<not> IsRed (pLeft n0) then RotateLeft n0 else Some n0);
     n2 \<leftarrow> (if IsRed (pLeft n1) \<and> IsRed (pLeft (pLeft n1)) then RotateRight n1 else Some n1);
     (if IsRed (pLeft n2) \<and> IsRed (pRight n2) then ColorFlip n2 else Some n2)
   }"

text \<open>
  \<^verbatim>\<open>FindParent\<close> reads \<^verbatim>\<open>tempPtr->pLeft->Ref.Key\<close> and, when that differs from the key,
  \<^verbatim>\<open>tempPtr->pRight->Ref.Key\<close>, with no null check on either child.
\<close>

fun FindParent :: "LLTB_t \<Rightarrow> VoidRef_t \<Rightarrow> LLTB_t option" where
  "FindParent Null ref = None"
| "FindParent (Node tref red l r) ref =
     (case l of
        Null \<Rightarrow> None
      | Node lref lred ll lr \<Rightarrow>
          if Key lref = Key ref then Some (Node tref red l r)
          else (case r of
                  Null \<Rightarrow> None
                | Node rref rred rl rr \<Rightarrow>
                    if Key rref = Key ref then Some (Node tref red l r)
                    else if Key tref > Key ref then FindParent l ref
                    else FindParent r ref))"

text \<open>
  The diagnostic line of \<^verbatim>\<open>Insert\<close> reads \<^verbatim>\<open>parent->pLeft->Ref.Key\<close> and, when that is
  not the inserted key, \<^verbatim>\<open>parent->pRight->Ref.Key\<close>. The text written to \<^verbatim>\<open>cout\<close> is not
  modelled, the pointer reads it needs are.
\<close>

definition print_parent :: "LLTB_t \<Rightarrow> VoidRef_t \<Rightarrow> unit option" where
  "print_parent parent ref =
     (case parent of
        Null \<Rightarrow> None
      | Node pref pred pl pr \<Rightarrow>
          (case pl of
             Null \<Rightarrow> None
           | Node plref plred pll plr \<Rightarrow>
               if Key plref = Key ref then Some ()
               else (case pr of
                       Null \<Rightarrow> None
                     | Node prref prred prl prr \<Rightarrow> Some ())))"

text \<open>
  \<^verbatim>\<open>Insert\<close>: the new root is painted black; unless the root bears the inserted key,
  \<^verbatim>\<open>FindParent\<close> is called and the result's children are read for the diagnostic line.
  The result is the returned \<^verbatim>\<open>bool\<close> and the new \<^verbatim>\<open>m_pRoot\<close>.
\<close>

definition Insert :: "LLTB_t \<Rightarrow> VoidRef_t \<Rightarrow> (bool \<times> LLTB_t) option" where
  "Insert m_pRoot ref = do {
     r0 \<leftarrow> InsertRec m_pRoot ref;
     (case r0 of
        Null \<Rightarrow> None
      | Node rref red l r \<Rightarrow>
          let root = Node rref False l r in
          if Key rref = Key ref then Some (True, root)
          else do {
            parent \<leftarrow> FindParent root ref;
            _ \<leftarrow> print_parent parent ref;
            Some (True, root)
          })
   }"

section \<open>Deletion\<close>

definition MoveRedLeft :: "LLTB_t \<Rightarrow> LLTB_t option" where
  "MoveRedLeft n = do {
     n1 \<leftarrow> ColorFlip n;
     (if pRight n1 \<noteq> Null \<and> IsRed (pLeft (pRight n1)) then do {
        r' \<leftarrow> RotateRight (pRight n1);
        n2 \<leftarrow> RotateLeft (Node (Ref n1) (Red n1) (pLeft n1) r');
        ColorFlip n2 }
      else Some n1)
   }"

definition MoveRedRight :: "LLTB_t \<Rightarrow> LLTB_t option" where
  "MoveRedRight n = do {
     n1 \<leftarrow> ColorFlip n;
     (if pLeft n1 \<noteq> Null \<and> IsRed (pLeft (pLeft n1)) then do {
        n2 \<leftarrow> RotateRight n1;
        ColorFlip n2 }
      else Some n1)
   }"

text \<open>\<^verbatim>\<open>FindMin\<close>: the loop follows \<^verbatim>\<open>pLeft\<close> while it is not null.\<close>

fun FindMin :: "LLTB_t \<Rightarrow> LLTB_t option" where
  "FindMin Null = None"
| "FindMin (Node ref red l r) = (if l \<noteq> Null then FindMin l else Some (Node ref red l r))"

fun FixUp :: "LLTB_t \<Rightarrow> LLTB_t option" where
  "FixUp Null = None"
| "FixUp (Node ref red l r) = do {
     n1 \<leftarrow> (if IsRed r then RotateLeft (Node ref red l r) else Some (Node ref red l r));
     n2 \<leftarrow> (if IsRed (pLeft n1) \<and> IsRed (pLeft (pLeft n1)) then RotateRight n1 else Some n1);
     (if IsRed (pLeft n2) \<and> IsRed (pRight n2) then ColorFlip n2 else Some n2)
   }"


text \<open>Sizes: rotations, flips and the two red moves keep every node.\<close>

lemma size_toggle [simp]: "size (toggle t) = size t"
  by (cases t) simp_all

lemma toggle_eq_Null [simp]: "(toggle t = Null) = (t = Null)"
  by (cases t) simp_all

lemma size_RotateLeft: "RotateLeft n = Some n' \<Longrightarrow> size n' = size n \<and> n' \<noteq> Null"
  by (cases n rule: RotateLeft.cases) auto

lemma size_RotateRight: "RotateRight n = Some n' \<Longrightarrow> size n' = size n \<and> n' \<noteq> Null"
  by (cases n rule: RotateRight.cases) auto

lemma size_ColorFlip: "ColorFlip n = Some n' \<Longrightarrow> size n' = size n \<and> n' \<noteq> Null"
  by (cases n) auto

lemma size_MoveRedLeft: "MoveRedLeft n = Some n' \<Longrightarrow> size n' = size n \<and> n' \<noteq> Null"
proof -
  assume a: "MoveRedLeft n = Some n'"
  then obtain n1 where n1: "ColorFlip n = Some n1"
    by (auto simp: MoveRedLeft_def split: bind_splits)
  then obtain ref red l r where n1eq: "n1 = Node ref red l r" and sz: "size n1 = size n"
    using size_ColorFlip [OF n1] by (cases n1) auto
  show ?thesis
  proof (cases "pRight n1 \<noteq> Null \<and> IsRed (pLeft (pRight n1))")
    case False
    with a n1 sz n1eq show ?thesis by (auto simp: MoveRedLeft_def)
  next
    case True
    with a n1 obtain r' n2 where
      r': "RotateRight (pRight n1) = Some r'" and
      n2: "RotateLeft (Node (Ref n1) (Red n1) (pLeft n1) r') = Some n2" and
      n': "ColorFlip n2 = Some n'"
      by (auto simp: MoveRedLeft_def split: bind_splits)
    from size_RotateRight [OF r'] size_RotateLeft [OF n2] size_ColorFlip [OF n'] sz n1eq
    show ?thesis by auto
  qed
qed

lemma size_MoveRedRight: "MoveRedRight n = Some n' \<Longrightarrow> size n' = size n \<and> n' \<noteq> Null"
proof -
  assume a: "MoveRedRight n = Some n'"
  then obtain n1 where n1: "ColorFlip n = Some n1"
    by (auto simp: MoveRedRight_def split: bind_splits)
  show ?thesis
  proof (cases "pLeft n1 \<noteq> Null \<and> IsRed (pLeft (pLeft n1))")
    case False
    with a n1 size_ColorFlip [OF n1] show ?thesis by (auto simp: MoveRedRight_def)
  next
    case True
    with a n1 obtain n2 where
      n2: "RotateRight n1 = Some n2" and n': "ColorFlip n2 = Some n'"
      by (auto simp: MoveRedRight_def split: bind_splits)
    from size_ColorFlip [OF n1] size_RotateRight [OF n2] size_ColorFlip [OF n']
    show ?thesis by auto
  qed
qed

lemma size_pLeft_less: "n \<noteq> Null \<Longrightarrow> size (pLeft n) < size n"
  by (cases n) auto

lemma size_pRight_less: "n \<noteq> Null \<Longrightarrow> size (pRight n) < size n"
  by (cases n) auto

text \<open>
  \<^verbatim>\<open>Free\<close> assigns \<^verbatim>\<open>nullptr\<close> to its local pointer before \<^verbatim>\<open>delete\<close>, so the calls
  \<^verbatim>\<open>Free(pNode)\<close> in \<^verbatim>\<open>DeleteMin\<close> and \<^verbatim>\<open>DeleteRec\<close> change no node; what the caller
  sees is the returned null pointer. The current \<^verbatim>\<open>pNode\<close> after a rotation or a red move
  is a node (lemmas above), so \<open>Ref\<close> and \<open>Red\<close> are applied to nodes only.
\<close>

function DeleteMin :: "LLTB_t \<Rightarrow> LLTB_t option" where
  "DeleteMin Null = None"
| "DeleteMin (Node ref red l r) =
     (if l = Null then Some Null
      else do {
        n1 \<leftarrow> (if \<not> IsRed l \<and> \<not> IsRed (pLeft l)
               then MoveRedLeft (Node ref red l r) else Some (Node ref red l r));
        l' \<leftarrow> DeleteMin (pLeft n1);
        FixUp (Node (Ref n1) (Red n1) l' (pRight n1))
      })"
  by pat_completeness auto
termination
proof (relation "measure size", goal_cases)
  case 1
  show ?case by simp
next
  case (2 ref red l r n1)
  then have "size n1 = size (Node ref red l r) \<and> n1 \<noteq> Null"
    by (auto split: if_splits dest: size_MoveRedLeft)
  then show ?case using size_pLeft_less [of n1] by simp
qed

function DeleteRec :: "LLTB_t \<Rightarrow> 32 word \<Rightarrow> LLTB_t option" where
  "DeleteRec Null key = None"
| "DeleteRec (Node ref red l r) key =
     (if key < Key ref then
        (if l \<noteq> Null then do {
           n1 \<leftarrow> (if \<not> IsRed l \<and> \<not> IsRed (pLeft l)
                  then MoveRedLeft (Node ref red l r) else Some (Node ref red l r));
           l' \<leftarrow> DeleteRec (pLeft n1) key;
           FixUp (Node (Ref n1) (Red n1) l' (pRight n1))
         }
         else FixUp (Node ref red l r))
      else do {
        n1 \<leftarrow> (if IsRed l then RotateRight (Node ref red l r) else Some (Node ref red l r));
        (if key = Key (Ref n1) \<and> pRight n1 = Null then Some Null
         else if pRight n1 \<noteq> Null then do {
           n2 \<leftarrow> (if \<not> IsRed (pRight n1) \<and> \<not> IsRed (pLeft (pRight n1))
                  then MoveRedRight n1 else Some n1);
           n3 \<leftarrow> (if key = Key (Ref n2) then do {
                    m \<leftarrow> FindMin (pRight n2);
                    r' \<leftarrow> DeleteMin (pRight n2);
                    Some (Node (Ref m) (Red n2) (pLeft n2) r')
                  }
                  else do {
                    r' \<leftarrow> DeleteRec (pRight n2) key;
                    Some (Node (Ref n2) (Red n2) (pLeft n2) r')
                  });
           FixUp n3
         }
         else FixUp n1)
      })"
  by pat_completeness auto
termination
proof (relation "measure (\<lambda>(n, key). size n)", goal_cases)
  case 1
  show ?case by simp
next
  case (2 ref red l r key n1)
  then have "size n1 = size (Node ref red l r) \<and> n1 \<noteq> Null"
    by (auto split: if_splits dest: size_MoveRedLeft)
  then show ?case using size_pLeft_less [of n1] by simp
next
  case (3 ref red l r key n1 n2)
  then have "size n1 = size (Node ref red l r) \<and> n1 \<noteq> Null"
    by (auto split: if_splits dest: size_RotateRight)
  moreover from 3 have "size n2 = size n1 \<and> n2 \<noteq> Null"
    by (auto split: if_splits dest: size_MoveRedRight)
  ultimately show ?case using size_pRight_less [of n2] by simp
qed

text \<open>\<^verbatim>\<open>Delete\<close> returns nothing; the result is the new \<^verbatim>\<open>m_pRoot\<close>.\<close>

definition Delete :: "LLTB_t \<Rightarrow> 32 word \<Rightarrow> LLTB_t option" where
  "Delete m_pRoot key =
     (if m_pRoot \<noteq> Null then do {
        r0 \<leftarrow> DeleteRec m_pRoot key;
        Some (case r0 of Null \<Rightarrow> Null | Node ref red l r \<Rightarrow> Node ref False l r)
      }
      else Some m_pRoot)"

section \<open>Lookup, traversal, teardown\<close>

text \<open>
  \<^verbatim>\<open>LookUp\<close> returns a \<^verbatim>\<open>void*\<close>; \<open>None\<close> is \<^verbatim>\<open>nullptr\<close>. The loop has two branches only
  and leaves when the pointer is null.
\<close>

fun LookUp :: "LLTB_t \<Rightarrow> 32 word \<Rightarrow> VoidRef_t option" where
  "LookUp Null key = None"
| "LookUp (Node ref red l r) key = (if key < Key ref then LookUp l key else LookUp r key)"

text \<open>
  What \<^verbatim>\<open>TraverseRec\<close> writes to \<^verbatim>\<open>cout\<close>: the warning about the order and, for each node,
  its colour and key. \<^verbatim>\<open>prev\<close> is passed by reference, so it is returned. Given a null
  pointer the function prints a message and then reads \<^verbatim>\<open>pNode->pLeft\<close>.
\<close>

datatype out = BadOrder | Line bool "32 word"

fun TraverseRec :: "LLTB_t \<Rightarrow> 32 word \<Rightarrow> (out list \<times> 32 word) option" where
  "TraverseRec Null prev = None"
| "TraverseRec (Node ref red l r) prev = do {
     (o1, p1) \<leftarrow> (if l \<noteq> Null then TraverseRec l prev else Some ([], prev));
     (o2, p2) \<leftarrow> (if r \<noteq> Null then TraverseRec r (Key ref) else Some ([], Key ref));
     Some (o1 @ (if \<not> p1 < Key ref then [BadOrder] else []) @ [Line red (Key ref)] @ o2, p2)
   }"

definition Traverse :: "LLTB_t \<Rightarrow> out list option" where
  "Traverse m_pRoot =
     (if m_pRoot \<noteq> Null then map_option fst (TraverseRec m_pRoot 0) else Some [])"

fun emitted_keys :: "out list \<Rightarrow> 32 word list" where
  "emitted_keys [] = []"
| "emitted_keys (Line red k # os) = k # emitted_keys os"
| "emitted_keys (_ # os) = emitted_keys os"

text \<open>
  \<^verbatim>\<open>Free\<close>: the result lists the operands of the \<^verbatim>\<open>delete\<close> expressions in the order
  they are evaluated. The local pointer is set to \<^verbatim>\<open>nullptr\<close> first, so each operand is
  the null pointer.
\<close>

fun Free :: "LLTB_t \<Rightarrow> LLTB_t list" where
  "Free Null = []"
| "Free (Node ref red l r) =
     (if l \<noteq> Null then Free l else []) @ (if r \<noteq> Null then Free r else []) @ [Null]"

text \<open>\<^verbatim>\<open>FreeAll\<close>: the operands of \<^verbatim>\<open>delete\<close> and the new \<^verbatim>\<open>m_pRoot\<close>.\<close>

definition FreeAll :: "LLTB_t \<Rightarrow> LLTB_t list \<times> LLTB_t" where
  "FreeAll m_pRoot = (Free m_pRoot, Null)"


section \<open>Invariants\<close>

fun inorder :: "LLTB_t \<Rightarrow> 32 word list" where
  "inorder Null = []"
| "inorder (Node ref red l r) = inorder l @ Key ref # inorder r"

definition keys :: "LLTB_t \<Rightarrow> 32 word set" where
  "keys t = set (inorder t)"

text \<open>I1, BST order: every key on the left is smaller, every key on the right is larger.\<close>

fun I1 :: "LLTB_t \<Rightarrow> bool" where
  "I1 Null = True"
| "I1 (Node ref red l r) =
     ((\<forall>k \<in> keys l. k < Key ref) \<and> (\<forall>k \<in> keys r. Key ref < k) \<and> I1 l \<and> I1 r)"

text \<open>I2, black root.\<close>

definition I2 :: "LLTB_t \<Rightarrow> bool" where
  "I2 t = (t \<noteq> Null \<longrightarrow> \<not> IsRed t)"

text \<open>I3, left-leaning: a red right child implies a red left child.\<close>

fun I3 :: "LLTB_t \<Rightarrow> bool" where
  "I3 Null = True"
| "I3 (Node ref red l r) = ((IsRed r \<longrightarrow> IsRed l) \<and> I3 l \<and> I3 r)"

text \<open>
  I4: no red node, wherever it hangs, has a red left child. The formula of the
  specification's section 8 speaks of left children only: no node has a red left child
  whose left child is red too (\<open>I4_left_spine\<close>).
\<close>

fun I4 :: "LLTB_t \<Rightarrow> bool" where
  "I4 Null = True"
| "I4 (Node ref red l r) = (\<not> (red \<and> IsRed l) \<and> I4 l \<and> I4 r)"

fun I4_left_spine :: "LLTB_t \<Rightarrow> bool" where
  "I4_left_spine Null = True"
| "I4_left_spine (Node ref red l r) =
     (\<not> (IsRed l \<and> IsRed (pLeft l)) \<and> I4_left_spine l \<and> I4_left_spine r)"

text \<open>
  I5, black balance. The colour of a link is stored in the node the link leads to, so the
  black links of a path are its black nodes; \<open>black_counts\<close> lists that number for every
  path from the root to a null link.
\<close>

fun black_counts :: "LLTB_t \<Rightarrow> nat list" where
  "black_counts Null = [0]"
| "black_counts (Node ref red l r) =
     map (\<lambda>n. if red then n else Suc n) (black_counts l @ black_counts r)"

definition I5 :: "LLTB_t \<Rightarrow> bool" where
  "I5 t = (\<forall>a \<in> set (black_counts t). \<forall>b \<in> set (black_counts t). a = b)"

text \<open>
  The invariants the recursion works with: no red right child and no red node with a red
  left child (\<open>invc\<close>), and equal black height on both sides of every node (\<open>invh\<close>).
  \<open>blacken\<close> is the assignment \<^verbatim>\<open>m_pRoot->IsRed = false\<close>.
\<close>

fun invc :: "LLTB_t \<Rightarrow> bool" where
  "invc Null = True"
| "invc (Node ref red l r) = (\<not> IsRed r \<and> (red \<longrightarrow> \<not> IsRed l) \<and> invc l \<and> invc r)"

fun bh :: "LLTB_t \<Rightarrow> nat" where
  "bh Null = 0"
| "bh (Node ref red l r) = (if red then bh l else Suc (bh l))"

fun invh :: "LLTB_t \<Rightarrow> bool" where
  "invh Null = True"
| "invh (Node ref red l r) = (bh l = bh r \<and> invh l \<and> invh r)"

fun blacken :: "LLTB_t \<Rightarrow> LLTB_t" where
  "blacken Null = Null"
| "blacken (Node ref red l r) = Node ref False l r"

text \<open>
  What a frame of \<open>DeleteRec\<close> may be given (\<open>del_pre\<close>): a balanced, ordered node whose
  subtrees satisfy \<open>invc\<close>, and which either has no red right child, or is black with a red
  right child that the search will enter. What it returns (\<open>del_ok\<close>): a balanced tree with
  the other keys in order, that satisfies \<open>invc\<close> once its root is black, and, when the frame
  was entered with a red link at hand, satisfies \<open>invc\<close> as it is, with the black height
  unchanged.
\<close>

definition del_ok :: "LLTB_t \<Rightarrow> 32 word \<Rightarrow> LLTB_t \<Rightarrow> bool" where
  "del_ok n key t' = (invh t' \<and> inorder t' = filter (\<lambda>x. x \<noteq> key) (inorder n)
     \<and> invc (blacken t')
     \<and> (IsRed n \<or> IsRed (pLeft n) \<or> IsRed (pRight n) \<longrightarrow>
          invc t' \<and> bh t' = bh n \<and> (\<not> IsRed n \<longrightarrow> \<not> IsRed t')))"

definition del_pre :: "LLTB_t \<Rightarrow> 32 word \<Rightarrow> bool" where
  "del_pre n key = (n \<noteq> Null \<and> invh n \<and> sorted_wrt (<) (inorder n)
     \<and> invc (pLeft n) \<and> invc (pRight n)
     \<and> ((\<not> IsRed (pRight n) \<and> (IsRed n \<longrightarrow> \<not> IsRed (pLeft n)))
        \<or> (\<not> IsRed n \<and> \<not> IsRed (pLeft n) \<and> IsRed (pRight n) \<and> Key (Ref n) \<le> key)))"

text \<open>The invariant of the tree between two public calls.\<close>

definition valid :: "LLTB_t \<Rightarrow> bool" where
  "valid t = (invc t \<and> invh t \<and> sorted_wrt (<) (inorder t) \<and> \<not> IsRed t)"

text \<open>
  Names for the three conditional statements that end \<^verbatim>\<open>InsertRec\<close>, on the embedded
  \<open>RotateLeft\<close>, \<open>RotateRight\<close> and \<open>ColorFlip\<close>.
\<close>

definition fix_a :: "LLTB_t \<Rightarrow> LLTB_t option" where
  "fix_a n = (if IsRed (pRight n) \<and> \<not> IsRed (pLeft n) then RotateLeft n else Some n)"

definition fix_b :: "LLTB_t \<Rightarrow> LLTB_t option" where
  "fix_b n = (if IsRed (pLeft n) \<and> IsRed (pLeft (pLeft n)) then RotateRight n else Some n)"

definition fix_c :: "LLTB_t \<Rightarrow> LLTB_t option" where
  "fix_c n = (if IsRed (pLeft n) \<and> IsRed (pRight n) then ColorFlip n else Some n)"

definition insert_fixup :: "LLTB_t \<Rightarrow> LLTB_t option" where
  "insert_fixup n = do { n1 \<leftarrow> fix_a n; n2 \<leftarrow> fix_b n1; fix_c n2 }"

text \<open>
  The insertion engine as the specification words it, with no reference to the embedded
  code. Section 4.1: an absent child is black; rotate-left of \<open>N\<close>, with \<open>R = N.right\<close>
  present, replaces \<open>N.right\<close> with \<open>R.left\<close>, sets \<open>R.left = N\<close>, \<open>R.color = N.color\<close>,
  \<open>N.color = red\<close> and returns \<open>R\<close>; rotate-right is its mirror; color-flip toggles the colour
  of \<open>N\<close>, \<open>N.left\<close> and \<open>N.right\<close>, absent children ignored. Outside their preconditions the
  primitives have no result.
\<close>

fun with_color :: "bool \<Rightarrow> LLTB_t \<Rightarrow> LLTB_t" where
  "with_color c Null = Null"
| "with_color c (Node ref red l r) = Node ref c l r"

fun with_left :: "LLTB_t \<Rightarrow> LLTB_t \<Rightarrow> LLTB_t" where
  "with_left x Null = Null"
| "with_left x (Node ref red l r) = Node ref red x r"

fun with_right :: "LLTB_t \<Rightarrow> LLTB_t \<Rightarrow> LLTB_t" where
  "with_right x Null = Null"
| "with_right x (Node ref red l r) = Node ref red l x"

fun spec_is_red :: "LLTB_t \<Rightarrow> bool" where
  "spec_is_red Null = False"
| "spec_is_red (Node ref red l r) = red"

definition spec_rotate_left :: "LLTB_t \<Rightarrow> LLTB_t option" where
  "spec_rotate_left N =
     (if N = Null \<or> pRight N = Null then None
      else let R = pRight N;
               N' = with_color True (with_right (pLeft R) N)
           in Some (with_color (spec_is_red N) (with_left N' R)))"

definition spec_rotate_right :: "LLTB_t \<Rightarrow> LLTB_t option" where
  "spec_rotate_right N =
     (if N = Null \<or> pLeft N = Null then None
      else let L = pLeft N;
               N' = with_color True (with_left (pRight L) N)
           in Some (with_color (spec_is_red N) (with_right N' L)))"

definition spec_color_flip :: "LLTB_t \<Rightarrow> LLTB_t option" where
  "spec_color_flip N =
     (if N = Null then None
      else let L = pLeft N; R = pRight N
           in Some (with_color (\<not> spec_is_red N)
                (with_left (with_color (\<not> spec_is_red L) L)
                  (with_right (with_color (\<not> spec_is_red R) R) N))))"

text \<open>
  Section 4.2, step 4: (a) rotate left when the right child is red and the left child is
  not, then (b) rotate right when the left child and its left child are red, then (c) flip
  colours when both children are red.
\<close>

definition spec_fix_a :: "LLTB_t \<Rightarrow> LLTB_t option" where
  "spec_fix_a N =
     (if spec_is_red (pRight N) \<and> \<not> spec_is_red (pLeft N) then spec_rotate_left N else Some N)"

definition spec_fix_b :: "LLTB_t \<Rightarrow> LLTB_t option" where
  "spec_fix_b N =
     (if spec_is_red (pLeft N) \<and> spec_is_red (pLeft (pLeft N)) then spec_rotate_right N
      else Some N)"

definition spec_fix_c :: "LLTB_t \<Rightarrow> LLTB_t option" where
  "spec_fix_c N =
     (if spec_is_red (pLeft N) \<and> spec_is_red (pRight N) then spec_color_flip N else Some N)"

definition spec_fixup :: "LLTB_t \<Rightarrow> LLTB_t option" where
  "spec_fixup N = do { N1 \<leftarrow> spec_fix_a N; N2 \<leftarrow> spec_fix_b N1; spec_fix_c N2 }"

text \<open>
  Section 4.2, steps 1 to 5: a new red node for an absent subtree; the value overwritten on
  an equal key; otherwise the recursion into the left or right child, whose link takes the
  result; then the triple; the frame returns the subtree root the triple leaves.
\<close>

fun spec_insert :: "LLTB_t \<Rightarrow> VoidRef_t \<Rightarrow> LLTB_t option" where
  "spec_insert Null ref = Some (Node ref True Null Null)"
| "spec_insert (Node nref red l r) ref =
     (if Key ref = Key nref then spec_fixup (Node ref red l r)
      else if Key ref < Key nref
        then spec_insert l ref \<bind> (\<lambda>l'. spec_fixup (Node nref red l' r))
        else spec_insert r ref \<bind> (\<lambda>r'. spec_fixup (Node nref red l r')))"

text \<open>The triple with the colour flip taken first, to compare.\<close>

definition spec_fixup_flip_first :: "LLTB_t \<Rightarrow> LLTB_t option" where
  "spec_fixup_flip_first N = do { N1 \<leftarrow> spec_fix_c N; N2 \<leftarrow> spec_fix_a N1; spec_fix_b N2 }"

text \<open>
  The states of a tree object: it starts empty, and each \<open>Insert\<close> or \<open>Delete\<close> that returns
  gives the next state. The second component is the set of keys inserted and not deleted
  since.
\<close>

inductive reach :: "LLTB_t \<Rightarrow> 32 word set \<Rightarrow> bool" where
  reach_empty: "reach Null {}"
| reach_Insert: "reach t S \<Longrightarrow> Insert t ref = Some (b, t') \<Longrightarrow> reach t' (insert (Key ref) S)"
| reach_Delete: "reach t S \<Longrightarrow> Delete t key = Some t' \<Longrightarrow> reach t' (S - {key})"

text \<open>
  The release order the specification asks of \<open>clear\<close>: every node once, children before
  their parent.
\<close>

fun spec_release_order :: "LLTB_t \<Rightarrow> LLTB_t list" where
  "spec_release_order Null = []"
| "spec_release_order (Node ref red l r) =
     spec_release_order l @ spec_release_order r @ [Node ref red l r]"

section \<open>Rotations, flips and deletion\<close>

lemma bh_zero_black: "bh t = 0 \<Longrightarrow> \<not> IsRed t \<Longrightarrow> t = Null"
  by (cases t) (auto split: if_splits)

lemma FixUp_post:
  assumes "invc l" "invc r" "invh (Node a c l r)"
  shows "\<exists>t'. FixUp (Node a c l r) = Some t' \<and> invh t'
     \<and> (\<not> (c \<and> IsRed l \<and> IsRed r) \<longrightarrow> bh t' = bh (Node a c l r))
     \<and> inorder t' = inorder (Node a c l r) \<and> invc (blacken t')
     \<and> ((\<not> c \<or> IsRed l = IsRed r) \<longrightarrow> invc t')
     \<and> (\<not> c \<and> \<not> (IsRed l \<and> IsRed r) \<longrightarrow> \<not> IsRed t')"
proof (cases r)
  case Null
  with assms show ?thesis by (cases l) auto
next
  case rN: (Node b cb rl rr)
  show ?thesis
  proof (cases l)
    case Null
    with rN assms show ?thesis by (auto split: if_splits)
  next
    case (Node e ce ll lr)
    with rN assms show ?thesis by (auto split: if_splits)
  qed
qed


lemma inorder_Null_iff [simp]: "(inorder t = []) = (t = Null)"
  by (cases t) auto

lemma MoveRedLeft_post:
  assumes "l \<noteq> Null" "\<not> IsRed l" "\<not> IsRed (pLeft l)" "invc l" "invc r" "\<not> IsRed r"
    "invh (Node a c l r)"
  shows "\<exists>a1 c1 l1 r1. MoveRedLeft (Node a c l r) = Some (Node a1 c1 l1 r1)
     \<and> invc l1 \<and> invc r1 \<and> invh (Node a1 c1 l1 r1)
     \<and> inorder (Node a1 c1 l1 r1) = inorder (Node a c l r)
     \<and> l1 \<noteq> Null \<and> (IsRed l1 \<or> IsRed (pLeft l1))
     \<and> (a1 = a \<or> Key a \<in> set (inorder l1))
     \<and> (c \<longrightarrow> bh (Node a1 c1 l1 r1) = bh (Node a c l r) \<and> (c1 \<longrightarrow> \<not> IsRed l1 \<and> \<not> IsRed r1))"
proof -
  from assms obtain e ce ll lr where l: "l = Node e ce ll lr" by (cases l) auto
  from assms l obtain b cb rl rr where r: "r = Node b cb rl rr"
    by (cases r) (auto split: if_splits)
  show ?thesis
  proof (cases "IsRed rl")
    case True
    then obtain f cf x y where rl: "rl = Node f cf x y" by (cases rl) auto
    with True assms l r show ?thesis
      by (auto simp: MoveRedLeft_def split: if_splits)
  next
    case False
    with assms l r show ?thesis
      by (auto simp: MoveRedLeft_def split: if_splits)
  qed
qed

lemma MoveRedRight_post:
  assumes "r \<noteq> Null" "\<not> IsRed r" "\<not> IsRed (pLeft r)" "\<not> IsRed l" "invc l" "invc r"
    "invh (Node a c l r)" "sorted_wrt (<) (inorder (Node a c l r))"
  shows "\<exists>a1 c1 l1 r1. MoveRedRight (Node a c l r) = Some (Node a1 c1 l1 r1)
     \<and> invc l1 \<and> invc (pLeft r1) \<and> invc (pRight r1) \<and> r1 \<noteq> Null
     \<and> invh (Node a1 c1 l1 r1)
     \<and> inorder (Node a1 c1 l1 r1) = inorder (Node a c l r)
     \<and> ((a1 = a \<and> IsRed r1 \<and> invc r1 \<and> c1 = (\<not> c) \<and> IsRed l1 \<and> \<not> IsRed (pLeft l1))
        \<or> (Key a1 < Key a \<and> Ref r1 = a \<and> \<not> IsRed r1 \<and> \<not> IsRed (pLeft r1)
            \<and> IsRed (pRight r1) \<and> c1 = c \<and> \<not> IsRed l1))
     \<and> (c \<longrightarrow> bh (Node a1 c1 l1 r1) = bh (Node a c l r))"
proof -
  from assms obtain b cb rl rr where r: "r = Node b cb rl rr" by (cases r) auto
  from assms r obtain e ce ll lr where l: "l = Node e ce ll lr"
    by (cases l) (auto split: if_splits)
  show ?thesis
  proof (cases "IsRed ll")
    case True
    then obtain f cf x y where ll: "ll = Node f cf x y" by (cases ll) auto
    with True assms l r show ?thesis
      by (auto simp: MoveRedRight_def sorted_wrt_append split: if_splits)
  next
    case False
    with assms l r show ?thesis
      by (auto simp: MoveRedRight_def split: if_splits)
  qed
qed


lemma FindMin_post:
  "n \<noteq> Null \<Longrightarrow> \<exists>m. FindMin n = Some m \<and> m \<noteq> Null \<and> Key (Ref m) = hd (inorder n)"
proof (induction n)
  case Null
  then show ?case by simp
next
  case (Node a c l r)
  then show ?case by (cases l) auto
qed

lemma DeleteMin_post:
  "n \<noteq> Null \<Longrightarrow> invc n \<Longrightarrow> invh n \<Longrightarrow> IsRed n \<or> IsRed (pLeft n) \<Longrightarrow>
   \<exists>t'. DeleteMin n = Some t' \<and> invc t' \<and> invh t' \<and> bh t' = bh n
      \<and> (\<not> IsRed n \<longrightarrow> \<not> IsRed t') \<and> inorder t' = tl (inorder n)"
proof (induction "size n" arbitrary: n rule: less_induct)
  case less
  from less.prems obtain a c l r where n: "n = Node a c l r" by (cases n) auto
  from less.prems n have cl: "invc l" and cr: "invc r" and nr: "\<not> IsRed r"
    and h: "invh (Node a c l r)" by auto
  show ?case
  proof (cases "l = Null")
    case True
    with less.prems n have "r = Null" by (auto intro: bh_zero_black split: if_splits)
    with True n less.prems show ?thesis by simp
  next
    case lN: False
    show ?thesis
    proof (cases "\<not> IsRed l \<and> \<not> IsRed (pLeft l)")
      case True
      with less.prems n have c: "c" by auto
      from True lN cl cr nr h MoveRedLeft_post [of l r a c]
      obtain a1 c1 l1 r1 where m: "MoveRedLeft (Node a c l r) = Some (Node a1 c1 l1 r1)"
        and p: "invc l1" "invc r1" "invh (Node a1 c1 l1 r1)"
          "inorder (Node a1 c1 l1 r1) = inorder (Node a c l r)"
          "l1 \<noteq> Null" "IsRed l1 \<or> IsRed (pLeft l1)"
          "bh (Node a1 c1 l1 r1) = bh (Node a c l r)" "c1 \<longrightarrow> \<not> IsRed l1 \<and> \<not> IsRed r1"
        using c by blast
      from size_MoveRedLeft [OF m] n have sz: "size l1 < size n" by simp
      from less.hyps [OF sz] p obtain l' where l': "DeleteMin l1 = Some l'"
        and q: "invc l'" "invh l'" "bh l' = bh l1" "\<not> IsRed l1 \<longrightarrow> \<not> IsRed l'"
          "inorder l' = tl (inorder l1)"
        by auto
      from p q have h': "invh (Node a1 c1 l' r1)" by simp
      from FixUp_post [OF q(1) p(2) h'] obtain t' where t': "FixUp (Node a1 c1 l' r1) = Some t'"
        and u: "invh t'" "\<not> (c1 \<and> IsRed l' \<and> IsRed r1) \<longrightarrow> bh t' = bh (Node a1 c1 l' r1)"
          "inorder t' = inorder (Node a1 c1 l' r1)"
          "(\<not> c1 \<or> IsRed l' = IsRed r1) \<longrightarrow> invc t'"
        by blast
      have "DeleteMin n = Some t'"
        using n lN True m l' t' by (simp del: FixUp.simps)
      moreover have "invc t'" using u p q by auto
      moreover have "bh t' = bh n" using u p q n by auto
      moreover have "inorder t' = tl (inorder n)"
      proof -
        from p(5) have "tl (inorder l1) @ Key a1 # inorder r1 = tl (inorder l1 @ Key a1 # inorder r1)"
          by simp
        with u(3) q(5) p(4) n show ?thesis by simp
      qed
      ultimately show ?thesis using u c n by simp
    next
      case False
      from lN n have sz: "size l < size n" by simp
      from cl have "IsRed l \<or> IsRed (pLeft l)" using False by blast
      from less.hyps [OF sz lN cl _ this] h
      obtain l' where l': "DeleteMin l = Some l'"
        and q: "invc l'" "invh l'" "bh l' = bh l" "\<not> IsRed l \<longrightarrow> \<not> IsRed l'"
          "inorder l' = tl (inorder l)"
        by auto
      from h q have h': "invh (Node a c l' r)" by simp
      from FixUp_post [OF q(1) cr h'] obtain t' where t': "FixUp (Node a c l' r) = Some t'"
        and u: "invh t'" "\<not> (c \<and> IsRed l' \<and> IsRed r) \<longrightarrow> bh t' = bh (Node a c l' r)"
          "inorder t' = inorder (Node a c l' r)"
          "(\<not> c \<or> IsRed l' = IsRed r) \<longrightarrow> invc t'"
          "\<not> c \<and> \<not> (IsRed l' \<and> IsRed r) \<longrightarrow> \<not> IsRed t'"
        by blast
      have "DeleteMin n = Some t'"
        using n lN False l' t' by (auto simp del: FixUp.simps)
      moreover have "invc t'" using u q nr less.prems n by auto
      moreover have "bh t' = bh n" using u q n nr by auto
      moreover have "inorder t' = tl (inorder n)"
      proof -
        from lN have "tl (inorder l) @ Key a # inorder r = tl (inorder l @ Key a # inorder r)"
          by simp
        with u(3) q(5) n show ?thesis by simp
      qed
      moreover have "\<not> IsRed n \<longrightarrow> \<not> IsRed t'" using u n nr by auto
      ultimately show ?thesis using u(1) by simp
    qed
  qed
qed


lemma filter_neq_above: "\<forall>x \<in> set xs. key < x \<Longrightarrow> filter (\<lambda>x. x \<noteq> key) xs = xs"
  for key :: "32 word"
  by (induction xs) auto

lemma filter_neq_below: "\<forall>x \<in> set xs. x < key \<Longrightarrow> filter (\<lambda>x. x \<noteq> key) xs = xs"
  for key :: "32 word"
  by (induction xs) auto

lemma invc_children: "invc t \<Longrightarrow> invc (pLeft t) \<and> invc (pRight t) \<and> \<not> IsRed (pRight t)
    \<and> (IsRed t \<longrightarrow> \<not> IsRed (pLeft t))"
  by (cases t) auto

lemma del_pre_invc:
  "n \<noteq> Null \<Longrightarrow> invc n \<Longrightarrow> invh n \<Longrightarrow> sorted_wrt (<) (inorder n) \<Longrightarrow> del_pre n key"
  using invc_children [of n] by (simp add: del_pre_def)

text \<open>The step that follows the descent to the right: successor copy or recursion.\<close>

lemma right_step:
  assumes r: "r \<noteq> Null" "invc r" "invh r" "IsRed r \<or> IsRed (pLeft r)"
    and s: "sorted_wrt (<) (inorder l @ Key a # inorder r)"
    and k: "Key a \<le> key"
    and rec: "key \<noteq> Key a \<Longrightarrow> \<exists>r'. DeleteRec r key = Some r' \<and> del_ok r key r'"
  shows "\<exists>x r'. (if key = Key a then (\<exists>m. FindMin r = Some m \<and> Ref m = x) \<and> DeleteMin r = Some r'
           else DeleteRec r key = Some r' \<and> x = a)
        \<and> invc r' \<and> invh r' \<and> bh r' = bh r \<and> (\<not> IsRed r \<longrightarrow> \<not> IsRed r')
        \<and> inorder l @ Key x # inorder r' = filter (\<lambda>x. x \<noteq> key) (inorder l @ Key a # inorder r)"
proof (cases "key = Key a")
  case True
  from FindMin_post [OF r(1)] obtain m where m: "FindMin r = Some m" "Key (Ref m) = hd (inorder r)"
    by blast
  from DeleteMin_post [OF r] obtain r' where r': "DeleteMin r = Some r'" "invc r'" "invh r'"
    "bh r' = bh r" "\<not> IsRed r \<longrightarrow> \<not> IsRed r'" "inorder r' = tl (inorder r)"
    by blast
  from s have "\<forall>x \<in> set (inorder l). x < key" "\<forall>x \<in> set (inorder r). key < x"
    using True by (auto simp: sorted_wrt_append)
  then have "filter (\<lambda>x. x \<noteq> key) (inorder l @ Key a # inorder r) = inorder l @ inorder r"
    using True by (simp add: filter_neq_above filter_neq_below)
  moreover have "Key (Ref m) # inorder r' = inorder r"
    using m r' r(1) by simp
  ultimately show ?thesis using True m r' by simp
next
  case False
  from rec [OF False] obtain r' where r': "DeleteRec r key = Some r'" "del_ok r key r'"
    by blast
  from s k False have "\<forall>x \<in> set (inorder l). x < key" "Key a < key"
    by (auto simp: sorted_wrt_append)
  then have "filter (\<lambda>x. x \<noteq> key) (inorder l @ Key a # inorder r)
      = inorder l @ Key a # filter (\<lambda>x. x \<noteq> key) (inorder r)"
    by (auto simp: filter_neq_below)
  with False r' r show ?thesis by (auto simp: del_ok_def)
qed


declare FixUp.simps [simp del] DeleteMin.simps [simp del] DeleteRec.simps [simp del]

lemma fix_finish:
  assumes "invc l'" "invc r'" "invh (Node x c' l' r')"
    and "inorder (Node x c' l' r') = filter (\<lambda>x. x \<noteq> key) (inorder n)"
    and "IsRed n \<or> IsRed (pLeft n) \<or> IsRed (pRight n) \<Longrightarrow>
           (\<not> c' \<or> (\<not> IsRed l' \<and> \<not> IsRed r')) \<and> bh (Node x c' l' r') = bh n
           \<and> (\<not> IsRed n \<longrightarrow> \<not> c' \<and> \<not> (IsRed l' \<and> IsRed r'))"
  shows "\<exists>t'. FixUp (Node x c' l' r') = Some t' \<and> del_ok n key t'"
proof -
  from FixUp_post [OF assms(1-3)] obtain t' where t': "FixUp (Node x c' l' r') = Some t'"
    and u: "invh t'" "\<not> (c' \<and> IsRed l' \<and> IsRed r') \<longrightarrow> bh t' = bh (Node x c' l' r')"
      "inorder t' = inorder (Node x c' l' r')" "invc (blacken t')"
      "(\<not> c' \<or> IsRed l' = IsRed r') \<longrightarrow> invc t'"
      "\<not> c' \<and> \<not> (IsRed l' \<and> IsRed r') \<longrightarrow> \<not> IsRed t'"
    by blast
  have "del_ok n key t'"
    unfolding del_ok_def using u assms(4,5) by auto
  with t' show ?thesis by blast
qed

lemma DeleteRec_post: "del_pre n key \<Longrightarrow> \<exists>t'. DeleteRec n key = Some t' \<and> del_ok n key t'"
proof (induction "size n" arbitrary: n rule: less_induct)
  case less
  note IH = less.hyps
  from less.prems obtain a c l r where n: "n = Node a c l r"
    by (cases n) (auto simp: del_pre_def)
  from less.prems n have cl: "invc l" and cr: "invc r" and h: "invh (Node a c l r)"
    and s: "sorted_wrt (<) (inorder l @ Key a # inorder r)"
    and d: "(\<not> IsRed r \<and> (c \<longrightarrow> \<not> IsRed l)) \<or> (\<not> c \<and> \<not> IsRed l \<and> IsRed r \<and> Key a \<le> key)"
    by (auto simp: del_pre_def)
  from s have sl: "\<forall>x \<in> set (inorder l). x < Key a" and sr: "\<forall>x \<in> set (inorder r). Key a < x"
    and ssl: "sorted_wrt (<) (inorder l)" and ssr: "sorted_wrt (<) (inorder r)"
    by (auto simp: sorted_wrt_append)
  from h have hl: "invh l" and hr: "invh r" and bhlr: "bh l = bh r" by auto
  show ?case
  proof (cases "key < Key a")
    case lt: True
    with d have nr: "\<not> IsRed r" and cnl: "c \<longrightarrow> \<not> IsRed l" by auto
    from lt sr have kr: "\<forall>x \<in> set (inorder r). key < x" by auto
    show ?thesis
    proof (cases "l = Null")
      case True
      have "inorder (Node a c l r) = filter (\<lambda>x. x \<noteq> key) (inorder n)"
        using True n lt kr by (simp add: filter_neq_above)
      from fix_finish [OF cl cr h this] True nr n
      obtain t' where "FixUp (Node a c l r) = Some t'" "del_ok n key t'" by auto
      moreover have "DeleteRec n key = FixUp (Node a c l r)"
        unfolding n by (subst DeleteRec.simps) (simp add: lt True)
      ultimately show ?thesis by simp
    next
      case lN: False
      show ?thesis
      proof (cases "\<not> IsRed l \<and> \<not> IsRed (pLeft l)")
        case True
        from True lN cl cr nr h MoveRedLeft_post [of l r a c]
        obtain a1 c1 l1 r1 where m: "MoveRedLeft (Node a c l r) = Some (Node a1 c1 l1 r1)"
          and p: "invc l1" "invc r1" "invh (Node a1 c1 l1 r1)"
            "inorder (Node a1 c1 l1 r1) = inorder (Node a c l r)"
            "l1 \<noteq> Null" "IsRed l1 \<or> IsRed (pLeft l1)"
            "a1 = a \<or> Key a \<in> set (inorder l1)"
            "c \<longrightarrow> bh (Node a1 c1 l1 r1) = bh (Node a c l r) \<and> (c1 \<longrightarrow> \<not> IsRed l1 \<and> \<not> IsRed r1)"
          by blast
        from p(4) s have s1: "sorted_wrt (<) (inorder l1 @ Key a1 # inorder r1)" by simp
        from size_MoveRedLeft [OF m] n have sz: "size l1 < size n" by simp
        from s1 have ssl1: "sorted_wrt (<) (inorder l1)" by (simp add: sorted_wrt_append)
        from p(3) have hl1: "invh l1" by simp
        have "del_pre l1 key"
          by (rule del_pre_invc [OF p(5) p(1) hl1 ssl1])
        from IH [OF sz this] p(6) obtain l' where l': "DeleteRec l1 key = Some l'"
          and q: "invh l'" "inorder l' = filter (\<lambda>x. x \<noteq> key) (inorder l1)"
            "invc l'" "bh l' = bh l1" "\<not> IsRed l1 \<longrightarrow> \<not> IsRed l'"
          by (auto simp: del_ok_def)
        from p(7) s1 lt have "key < Key a1" by (auto simp: sorted_wrt_append)
        with s1 have "key \<noteq> Key a1" "\<forall>x \<in> set (inorder r1). key < x"
          by (auto simp: sorted_wrt_append)
        then have io: "inorder (Node a1 c1 l' r1) = filter (\<lambda>x. x \<noteq> key) (inorder n)"
          using q(2) p(4) [symmetric] n by (simp add: filter_neq_above)
        from p q have h': "invh (Node a1 c1 l' r1)" by simp
        have "\<exists>t'. FixUp (Node a1 c1 l' r1) = Some t' \<and> del_ok n key t'"
        proof (rule fix_finish [OF q(3) p(2) h' io])
          assume "IsRed n \<or> IsRed (pLeft n) \<or> IsRed (pRight n)"
          with n True nr have c by simp
          with p(8) q p(3) n
          show "(\<not> c1 \<or> (\<not> IsRed l' \<and> \<not> IsRed r1)) \<and> bh (Node a1 c1 l' r1) = bh n
             \<and> (\<not> IsRed n \<longrightarrow> \<not> c1 \<and> \<not> (IsRed l' \<and> IsRed r1))"
            by auto
        qed
        moreover have "DeleteRec n key = FixUp (Node a1 c1 l' r1)"
          unfolding n by (subst DeleteRec.simps) (simp add: lt lN True m l')
        ultimately show ?thesis by simp
      next
        case False
        from lN n have sz: "size l < size n" by simp
        from False have dl: "IsRed l \<or> IsRed (pLeft l)" by blast
        have "del_pre l key" using lN cl hl ssl by (rule del_pre_invc)
        from IH [OF sz this] dl obtain l' where l': "DeleteRec l key = Some l'"
          and q: "invh l'" "inorder l' = filter (\<lambda>x. x \<noteq> key) (inorder l)"
            "invc l'" "bh l' = bh l" "\<not> IsRed l \<longrightarrow> \<not> IsRed l'"
          by (auto simp: del_ok_def)
        have io: "inorder (Node a c l' r) = filter (\<lambda>x. x \<noteq> key) (inorder n)"
          using q(2) n lt kr by (simp add: filter_neq_above)
        from h q have h': "invh (Node a c l' r)" by simp
        have "\<exists>t'. FixUp (Node a c l' r) = Some t' \<and> del_ok n key t'"
          using fix_finish [OF q(3) cr h' io] q nr cnl n by auto
        moreover have "DeleteRec n key = FixUp (Node a c l' r)"
          unfolding n using False by (subst DeleteRec.simps) (auto simp add: lt lN l')
        ultimately show ?thesis by simp
      qed
    qed
  next
    case ge: False
    then have k: "Key a \<le> key" by simp
    with sl have kl: "\<forall>x \<in> set (inorder l). x < key" by auto
    show ?thesis
    proof (cases "IsRed l")
      case True
      with d have nc: "\<not> c" and nr: "\<not> IsRed r" by auto
      from True obtain b ll lr where l: "l = Node b True ll lr" by (cases l) auto
      let ?r1 = "Node a True lr r"
      from l n have sz: "size ?r1 < size n" by simp
      have "del_pre ?r1 key"
        using cl cr h s l nr by (auto simp: del_pre_def sorted_wrt_append)
      from IH [OF sz this] obtain r' where r': "DeleteRec ?r1 key = Some r'"
        and q: "invh r'" "inorder r' = filter (\<lambda>x. x \<noteq> key) (inorder ?r1)"
          "invc r'" "bh r' = bh ?r1"
        by (auto simp: del_ok_def)
      from s l k have kb: "Key b < key" "\<forall>x \<in> set (inorder ll). x < key"
        by (auto simp: sorted_wrt_append)
      have io: "inorder (Node b False ll r') = filter (\<lambda>x. x \<noteq> key) (inorder n)"
        using q(2) n l kb by (simp add: filter_neq_below)
      from h q l have h': "invh (Node b False ll r')" by simp
      from cl l have cll: "invc ll" "\<not> IsRed ll" by auto
      have "\<exists>t'. FixUp (Node b False ll r') = Some t' \<and> del_ok n key t'"
        using fix_finish [OF cll(1) q(3) h' io] q l n nc cll h by auto
      moreover from kb(1) have "key \<noteq> Key b" by auto
      then have "DeleteRec n key = FixUp (Node b False ll r')"
        unfolding n l by (subst DeleteRec.simps) (simp add: ge r' nc)
      ultimately show ?thesis by simp
    next
      case nl: False
      show ?thesis
      proof (cases "r = Null")
        case True
        with bhlr nl have lN: "l = Null" by (auto intro: bh_zero_black)
        show ?thesis
        proof (cases "key = Key a")
          case True
          have "DeleteRec n key = Some Null"
            unfolding n by (subst DeleteRec.simps) (simp add: True lN \<open>r = Null\<close>)
          with True \<open>r = Null\<close> lN n show ?thesis by (simp add: del_ok_def)
        next
          case False
          have io: "inorder (Node a c l r) = filter (\<lambda>x. x \<noteq> key) (inorder n)"
            using lN \<open>r = Null\<close> False n by simp
          from fix_finish [OF cl cr h io] lN \<open>r = Null\<close> n
          obtain t' where "FixUp (Node a c l r) = Some t'" "del_ok n key t'" by auto
          moreover have "DeleteRec n key = FixUp (Node a c l r)"
            unfolding n by (subst DeleteRec.simps) (simp add: ge lN \<open>r = Null\<close> False)
          ultimately show ?thesis by simp
        qed
      next
        case rN: False
        show ?thesis
        proof (cases "\<not> IsRed r \<and> \<not> IsRed (pLeft r)")
          case True
          from True rN nl cl cr h s MoveRedRight_post [of r l a c]
          obtain a1 c1 l1 r1 where m: "MoveRedRight (Node a c l r) = Some (Node a1 c1 l1 r1)"
            and p: "invc l1" "invc (pLeft r1)" "invc (pRight r1)" "r1 \<noteq> Null"
              "invh (Node a1 c1 l1 r1)"
              "inorder (Node a1 c1 l1 r1) = inorder (Node a c l r)"
              "(a1 = a \<and> IsRed r1 \<and> invc r1 \<and> c1 = (\<not> c) \<and> IsRed l1 \<and> \<not> IsRed (pLeft l1))
                \<or> (Key a1 < Key a \<and> Ref r1 = a \<and> \<not> IsRed r1 \<and> \<not> IsRed (pLeft r1)
                  \<and> IsRed (pRight r1) \<and> c1 = c \<and> \<not> IsRed l1)"
              "c \<longrightarrow> bh (Node a1 c1 l1 r1) = bh (Node a c l r)"
            by (simp only: inorder.simps) blast
          from p(6) s have s1: "sorted_wrt (<) (inorder l1 @ Key a1 # inorder r1)" by simp
          from size_MoveRedRight [OF m] n have sz: "size r1 < size n" by simp
          from p(5) have hr1: "invh r1" "invh l1" "bh l1 = bh r1" by auto
          from s1 have ssr1: "sorted_wrt (<) (inorder r1)" by (simp add: sorted_wrt_append)
          from True n have desc: "IsRed n \<or> IsRed (pLeft n) \<or> IsRed (pRight n) \<Longrightarrow> c"
            using nl by simp
          from p(7) show ?thesis
          proof (elim disjE conjE)
            assume a: "a1 = a" "IsRed r1" "invc r1" "c1 = (\<not> c)" "IsRed l1" "\<not> IsRed (pLeft l1)"
            have rec: "key \<noteq> Key a1 \<Longrightarrow> \<exists>r'. DeleteRec r1 key = Some r' \<and> del_ok r1 key r'"
              using IH [OF sz del_pre_invc [OF p(4) a(3) hr1(1) ssr1]] .
            from right_step [OF p(4) a(3) hr1(1) _ s1 _ rec] a k
            obtain x r' where st: "if key = Key a1
                then (\<exists>m. FindMin r1 = Some m \<and> Ref m = x) \<and> DeleteMin r1 = Some r'
                else DeleteRec r1 key = Some r' \<and> x = a1"
              and q: "invc r'" "invh r'" "bh r' = bh r1" "\<not> IsRed r1 \<longrightarrow> \<not> IsRed r'"
                "inorder l1 @ Key x # inorder r'
                   = filter (\<lambda>x. x \<noteq> key) (inorder l1 @ Key a1 # inorder r1)"
              by auto
            have "inorder (Node x c1 l1 r')
                = filter (\<lambda>x. x \<noteq> key) (inorder (Node a1 c1 l1 r1))"
              using q(5) by (simp only: inorder.simps)
            then have io: "inorder (Node x c1 l1 r') = filter (\<lambda>x. x \<noteq> key) (inorder n)"
              unfolding p(6) n .
            from hr1 q have h': "invh (Node x c1 l1 r')" by simp
            have "\<exists>t'. FixUp (Node x c1 l1 r') = Some t' \<and> del_ok n key t'"
            proof (rule fix_finish [OF p(1) q(1) h' io])
              assume "IsRed n \<or> IsRed (pLeft n) \<or> IsRed (pRight n)"
              then have c by (rule desc)
              with p(8) a q hr1 n
              show "(\<not> c1 \<or> (\<not> IsRed l1 \<and> \<not> IsRed r')) \<and> bh (Node x c1 l1 r') = bh n
                 \<and> (\<not> IsRed n \<longrightarrow> \<not> c1 \<and> \<not> (IsRed l1 \<and> IsRed r'))"
                by auto
            qed
            moreover have "DeleteRec n key = FixUp (Node x c1 l1 r')"
              unfolding n using True st ge nl rN m p(4)
              by (subst DeleteRec.simps) (auto split: if_splits)
            ultimately show ?thesis by simp
          next
            assume b: "Key a1 < Key a" "Ref r1 = a" "\<not> IsRed r1" "\<not> IsRed (pLeft r1)"
              "IsRed (pRight r1)" "c1 = c" "\<not> IsRed l1"
            have "del_pre r1 key"
              using p hr1 ssr1 b k by (simp add: del_pre_def)
            from IH [OF sz this] b obtain r' where r': "DeleteRec r1 key = Some r'"
              and q: "invh r'" "inorder r' = filter (\<lambda>x. x \<noteq> key) (inorder r1)"
                "invc r'" "bh r' = bh r1" "\<not> IsRed r'"
              by (auto simp: del_ok_def)
            from b k have ka: "Key a1 < key" by simp
            with s1 have "\<forall>x \<in> set (inorder l1). x < key" by (auto simp: sorted_wrt_append)
            with ka have io: "inorder (Node a1 c1 l1 r') = filter (\<lambda>x. x \<noteq> key) (inorder n)"
              using q(2) p(6) [symmetric] n by (simp add: filter_neq_below)
            from hr1 q have h': "invh (Node a1 c1 l1 r')" by simp
            have "\<exists>t'. FixUp (Node a1 c1 l1 r') = Some t' \<and> del_ok n key t'"
            proof (rule fix_finish [OF p(1) q(3) h' io])
              assume "IsRed n \<or> IsRed (pLeft n) \<or> IsRed (pRight n)"
              then have c by (rule desc)
              with p(8) b q hr1 n
              show "(\<not> c1 \<or> (\<not> IsRed l1 \<and> \<not> IsRed r')) \<and> bh (Node a1 c1 l1 r') = bh n
                 \<and> (\<not> IsRed n \<longrightarrow> \<not> c1 \<and> \<not> (IsRed l1 \<and> IsRed r'))"
                by auto
            qed
            moreover from ka have "key \<noteq> Key a1" by auto
            then have "DeleteRec n key = FixUp (Node a1 c1 l1 r')"
              unfolding n using True
              by (subst DeleteRec.simps) (simp add: ge nl rN m r' p(4))
            ultimately show ?thesis by simp
          qed
        next
          case False
          then have dr: "IsRed r \<or> IsRed (pLeft r)" by blast
          from rN n have sz: "size r < size n" by simp
          have rec: "key \<noteq> Key a \<Longrightarrow> \<exists>r'. DeleteRec r key = Some r' \<and> del_ok r key r'"
            using IH [OF sz del_pre_invc [OF rN cr hr ssr]] .
          from right_step [OF rN cr hr dr s k rec]
          obtain x r' where st: "if key = Key a
              then (\<exists>m. FindMin r = Some m \<and> Ref m = x) \<and> DeleteMin r = Some r'
              else DeleteRec r key = Some r' \<and> x = a"
            and q: "invc r'" "invh r'" "bh r' = bh r" "\<not> IsRed r \<longrightarrow> \<not> IsRed r'"
              "inorder l @ Key x # inorder r'
                 = filter (\<lambda>x. x \<noteq> key) (inorder l @ Key a # inorder r)"
            by auto
          have io: "inorder (Node x c l r') = filter (\<lambda>x. x \<noteq> key) (inorder n)"
            unfolding n using q(5) by (simp only: inorder.simps)
          from h q have h': "invh (Node x c l r')" by simp
          have "\<exists>t'. FixUp (Node x c l r') = Some t' \<and> del_ok n key t'"
            using fix_finish [OF cl q(1) h' io] q d nl n by auto
          moreover have "DeleteRec n key = FixUp (Node x c l r')"
            unfolding n using False st ge nl rN
            by (subst DeleteRec.simps) (auto split: if_splits)
          ultimately show ?thesis by simp
        qed
      qed
    qed
  qed
qed

lemma InsertRec_bind_fixup:
  "InsertRec (Node nref red l r) ref =
     (if Key ref = Key nref then Some (Node ref red l r)
      else if Key ref < Key nref
        then do { l' \<leftarrow> InsertRec l ref; Some (Node nref red l' r) }
        else do { r' \<leftarrow> InsertRec r ref; Some (Node nref red l r') }) \<bind> insert_fixup"
  unfolding InsertRec.simps insert_fixup_def fix_a_def fix_b_def fix_c_def ..

lemma InsertRec_Node:
  "InsertRec (Node nref red l r) ref =
     (if Key ref = Key nref then insert_fixup (Node ref red l r)
      else if Key ref < Key nref
        then InsertRec l ref \<bind> (\<lambda>l'. insert_fixup (Node nref red l' r))
        else InsertRec r ref \<bind> (\<lambda>r'. insert_fixup (Node nref red l r')))"
  unfolding InsertRec_bind_fixup by simp

lemma insert_fixup_post:
  assumes "invc (blacken l)" "invc r" "c \<longrightarrow> invc l"
    "IsRed r \<longrightarrow> invc l \<and> (c \<longrightarrow> \<not> IsRed l)" "invh (Node a c l r)"
  shows "\<exists>t'. insert_fixup (Node a c l r) = Some t' \<and> t' \<noteq> Null \<and> invh t'
     \<and> bh t' = bh (Node a c l r) \<and> inorder t' = inorder (Node a c l r)
     \<and> invc (blacken t') \<and> (\<not> c \<longrightarrow> invc t')"
proof (cases "IsRed r")
  case True
  then obtain b rl rr where r: "r = Node b True rl rr" by (cases r) auto
  from True assms have cl: "invc l" "c \<longrightarrow> \<not> IsRed l" by auto
  show ?thesis
  proof (cases "IsRed l")
    case lr: True
    then obtain e ll lr where l: "l = Node e True ll lr" by (cases l) auto
    with r assms cl show ?thesis
      by (simp add: insert_fixup_def fix_a_def fix_b_def fix_c_def)
  next
    case False
    with r assms cl show ?thesis
      by (simp add: insert_fixup_def fix_a_def fix_b_def fix_c_def)
  qed
next
  case nr: False
  show ?thesis
  proof (cases "IsRed l \<and> IsRed (pLeft l)")
    case True
    then obtain e f x y lr where l: "l = Node e True (Node f True x y) lr"
      by (cases l; cases "pLeft l") auto
    with nr assms show ?thesis
      by (auto simp add: insert_fixup_def fix_a_def fix_b_def fix_c_def)
  next
    case False
    with nr assms show ?thesis
      by (cases l) (auto simp add: insert_fixup_def fix_a_def fix_b_def fix_c_def)
  qed
qed


lemma invc_blacken: "invc t \<Longrightarrow> invc (blacken t)"
  by (cases t) auto

lemma InsertRec_post:
  "invc t \<Longrightarrow> invh t \<Longrightarrow> sorted_wrt (<) (inorder t) \<Longrightarrow>
   \<exists>t'. InsertRec t ref = Some t' \<and> t' \<noteq> Null \<and> invh t' \<and> bh t' = bh t
     \<and> sorted_wrt (<) (inorder t')
     \<and> set (inorder t') = insert (Key ref) (set (inorder t))
     \<and> invc (blacken t') \<and> (\<not> IsRed t \<longrightarrow> invc t')"
proof (induction t)
  case Null
  show ?case by (simp add: NewNode_def)
next
  case (Node a c l r)
  from Node.prems have cl: "invc l" and cr: "invc r" and nr: "\<not> IsRed r"
    and cnl: "c \<longrightarrow> \<not> IsRed l" and h: "invh (Node a c l r)"
    and hl: "invh l" and hr: "invh r"
    by auto
  from Node.prems have sl: "\<forall>x \<in> set (inorder l). x < Key a"
    and sr: "\<forall>x \<in> set (inorder r). Key a < x"
    and ssl: "sorted_wrt (<) (inorder l)" and ssr: "sorted_wrt (<) (inorder r)"
    and slr: "\<forall>x \<in> set (inorder l). \<forall>y \<in> set (inorder r). x < y"
    by (auto simp: sorted_wrt_append)
  have fin: "\<exists>t'. insert_fixup (Node x c l' r') = Some t' \<and> t' \<noteq> Null \<and> invh t'
       \<and> bh t' = bh (Node a c l r) \<and> sorted_wrt (<) (inorder t')
       \<and> set (inorder t') = insert (Key ref) (set (inorder (Node a c l r)))
       \<and> invc (blacken t') \<and> (\<not> IsRed (Node a c l r) \<longrightarrow> invc t')"
    if "invc (blacken l')" "invc r'" "c \<longrightarrow> invc l'"
      "IsRed r' \<longrightarrow> invc l' \<and> (c \<longrightarrow> \<not> IsRed l')" "invh (Node x c l' r')"
      "bh l' = bh l" "sorted_wrt (<) (inorder (Node x c l' r'))"
      "set (inorder (Node x c l' r')) = insert (Key ref) (set (inorder (Node a c l r)))"
    for x l' r'
  proof -
    from insert_fixup_post [OF that(1-5)] obtain t' where
      "insert_fixup (Node x c l' r') = Some t'" "t' \<noteq> Null" "invh t'"
      "bh t' = bh (Node x c l' r')" "inorder t' = inorder (Node x c l' r')"
      "invc (blacken t')" "\<not> c \<longrightarrow> invc t'"
      by blast
    with that(6-8) show ?thesis by simp
  qed
  show ?case
  proof (cases "Key ref = Key a")
    case True
    have "\<exists>t'. insert_fixup (Node ref c l r) = Some t' \<and> t' \<noteq> Null \<and> invh t'
       \<and> bh t' = bh (Node a c l r) \<and> sorted_wrt (<) (inorder t')
       \<and> set (inorder t') = insert (Key ref) (set (inorder (Node a c l r)))
       \<and> invc (blacken t') \<and> (\<not> IsRed (Node a c l r) \<longrightarrow> invc t')"
      using Node.prems(3) True cl cr nr cnl h
      by (intro fin) (auto simp: invc_blacken)
    then show ?thesis unfolding InsertRec_Node using True by simp
  next
    case ne: False
    show ?thesis
    proof (cases "Key ref < Key a")
      case True
      from Node.IH(1) [OF cl hl ssl] obtain l' where l': "InsertRec l ref = Some l'"
        and q: "invh l'" "bh l' = bh l" "sorted_wrt (<) (inorder l')"
          "set (inorder l') = insert (Key ref) (set (inorder l))"
          "invc (blacken l')" "\<not> IsRed l \<longrightarrow> invc l'"
        by blast
      have "\<exists>t'. insert_fixup (Node a c l' r) = Some t' \<and> t' \<noteq> Null \<and> invh t'
         \<and> bh t' = bh (Node a c l r) \<and> sorted_wrt (<) (inorder t')
         \<and> set (inorder t') = insert (Key ref) (set (inorder (Node a c l r)))
         \<and> invc (blacken t') \<and> (\<not> IsRed (Node a c l r) \<longrightarrow> invc t')"
        using q cr nr cnl h True sl sr ssr slr
        by (intro fin) (auto simp: sorted_wrt_append)
      then show ?thesis unfolding InsertRec_Node using True ne l' by simp
    next
      case False
      with ne have gt: "Key a < Key ref" by auto
      from Node.IH(2) [OF cr hr ssr] obtain r' where r': "InsertRec r ref = Some r'"
        and q: "invh r'" "bh r' = bh r" "sorted_wrt (<) (inorder r')"
          "set (inorder r') = insert (Key ref) (set (inorder r))"
          "invc (blacken r')" "\<not> IsRed r \<longrightarrow> invc r'"
        by blast
      have "\<exists>t'. insert_fixup (Node a c l r') = Some t' \<and> t' \<noteq> Null \<and> invh t'
         \<and> bh t' = bh (Node a c l r) \<and> sorted_wrt (<) (inorder t')
         \<and> set (inorder t') = insert (Key ref) (set (inorder (Node a c l r)))
         \<and> invc (blacken t') \<and> (\<not> IsRed (Node a c l r) \<longrightarrow> invc t')"
        using q cl nr cnl h gt sl sr ssl slr
        by (intro fin) (auto simp: sorted_wrt_append invc_blacken)
      then show ?thesis unfolding InsertRec_Node using False ne r' by simp
    qed
  qed
qed


lemma blacken_valid:
  "invc (blacken t) \<Longrightarrow> invh t \<Longrightarrow> sorted_wrt (<) (inorder t) \<Longrightarrow> valid (blacken t)"
  by (cases t) (auto simp: valid_def)

lemma inorder_blacken [simp]: "inorder (blacken t) = inorder t"
  by (cases t) auto

lemma bh_zero_iff: "\<not> IsRed t \<Longrightarrow> (bh t = 0) = (t = Null)"
  by (cases t) auto

lemma red_leaf: "IsRed t \<Longrightarrow> invc t \<Longrightarrow> invh t \<Longrightarrow> bh t = 0 \<Longrightarrow> inorder t = [Key (Ref t)]"
  by (cases t) (auto simp: bh_zero_iff)

lemma FindParent_post:
  "invc t \<Longrightarrow> invh t \<Longrightarrow> sorted_wrt (<) (inorder t) \<Longrightarrow> t \<noteq> Null \<Longrightarrow>
   Key ref \<in> set (inorder t) \<Longrightarrow> Key ref \<noteq> Key (Ref t) \<Longrightarrow>
   \<exists>pref pc pl pr. FindParent t ref = Some (Node pref pc pl pr) \<and> pl \<noteq> Null
      \<and> (Key (Ref pl) = Key ref \<or> (pr \<noteq> Null \<and> Key (Ref pr) = Key ref))"
proof (induction t)
  case Null
  then show ?case by simp
next
  case (Node a c l r)
  from Node.prems have cl: "invc l" and cr: "invc r" and nr: "\<not> IsRed r"
    and hl: "invh l" and hr: "invh r" and bhlr: "bh l = bh r"
    and ssl: "sorted_wrt (<) (inorder l)" and ssr: "sorted_wrt (<) (inorder r)"
    and sl: "\<forall>x \<in> set (inorder l). x < Key a" and sr: "\<forall>x \<in> set (inorder r). Key a < x"
    and mem: "Key ref \<in> set (inorder l) \<or> Key ref \<in> set (inorder r)"
    by (auto simp: sorted_wrt_append)
  show ?case
  proof (cases l)
    case Null
    with bhlr nr have "r = Null" by (auto intro: bh_zero_black)
    with Null mem show ?thesis by simp
  next
    case lN: (Node e ce ll lr)
    show ?thesis
    proof (cases "Key e = Key ref")
      case True
      with lN show ?thesis by simp
    next
      case ne: False
      show ?thesis
      proof (cases r)
        case Null
        with bhlr have b0: "bh l = 0" by simp
        with lN have "IsRed l" by (auto split: if_splits)
        from red_leaf [OF this cl hl b0] lN have "inorder l = [Key e]" by simp
        with Null mem ne show ?thesis by simp
      next
        case rN: (Node b cb rl rr)
        show ?thesis
        proof (cases "Key b = Key ref")
          case True
          with lN rN ne show ?thesis by simp
        next
          case nb: False
          show ?thesis
          proof (cases "Key ref < Key a")
            case True
            with sr mem have "Key ref \<in> set (inorder l)" by auto
            from Node.IH(1) [OF cl hl ssl _ this] lN ne
            obtain pref pc pl pr where "FindParent l ref = Some (Node pref pc pl pr)"
              "pl \<noteq> Null" "Key (Ref pl) = Key ref \<or> (pr \<noteq> Null \<and> Key (Ref pr) = Key ref)"
              by auto
            with lN rN ne nb True show ?thesis by simp
          next
            case False
            with sl mem have "Key ref \<in> set (inorder r)" by auto
            from Node.IH(2) [OF cr hr ssr _ this] rN nb
            obtain pref pc pl pr where "FindParent r ref = Some (Node pref pc pl pr)"
              "pl \<noteq> Null" "Key (Ref pl) = Key ref \<or> (pr \<noteq> Null \<and> Key (Ref pr) = Key ref)"
              by auto
            with lN rN ne nb False show ?thesis by simp
          qed
        qed
      qed
    qed
  qed
qed

text \<open>The tree that \<open>Insert\<close> returns is the result of \<open>InsertRec\<close> with a black root.\<close>

lemma Insert_result:
  "Insert t ref = Some (b, t') \<Longrightarrow> b \<and> (\<exists>r0. InsertRec t ref = Some r0 \<and> t' = blacken r0)"
  by (auto simp: Insert_def Let_def split: bind_splits LLTB_t.splits if_splits)

lemma Insert_post:
  assumes "valid t"
  shows "\<exists>t'. Insert t ref = Some (True, t') \<and> valid t' \<and> t' \<noteq> Null
     \<and> set (inorder t') = insert (Key ref) (set (inorder t))"
proof -
  from assms have "invc t" "invh t" "sorted_wrt (<) (inorder t)" by (auto simp: valid_def)
  from InsertRec_post [OF this] obtain r0 where r0: "InsertRec t ref = Some r0" "r0 \<noteq> Null"
    and q: "invh r0" "sorted_wrt (<) (inorder r0)"
      "set (inorder r0) = insert (Key ref) (set (inorder t))" "invc (blacken r0)"
    by blast
  from r0(2) obtain a c l r where n: "r0 = Node a c l r" by (cases r0) auto
  let ?root = "Node a False l r"
  from n have br: "blacken r0 = ?root" by simp
  from blacken_valid [OF q(4) q(1) q(2)] br have v: "valid ?root" by simp
  have "Insert t ref = Some (True, ?root)"
  proof (cases "Key a = Key ref")
    case True
    with r0 n show ?thesis by (simp add: Insert_def Let_def)
  next
    case False
    from v have "invc ?root" "invh ?root" "sorted_wrt (<) (inorder ?root)"
      by (auto simp: valid_def)
    moreover have "?root \<noteq> Null" by simp
    moreover have "Key ref \<in> set (inorder ?root)" using q(3) n by simp
    moreover have "Key ref \<noteq> Key (Ref ?root)" using False by simp
    ultimately obtain pref pc pl pr where
      "FindParent ?root ref = Some (Node pref pc pl pr)" "pl \<noteq> Null"
      "Key (Ref pl) = Key ref \<or> (pr \<noteq> Null \<and> Key (Ref pr) = Key ref)"
      using FindParent_post [of ?root ref] by blast
    with r0 n False show ?thesis
      by (cases pl; cases pr) (auto simp: Insert_def Let_def print_parent_def simp del: FindParent.simps)
  qed
  with v q(3) n show ?thesis by auto
qed

lemma Delete_post:
  assumes "valid t"
  shows "\<exists>t'. Delete t key = Some t' \<and> valid t'
     \<and> inorder t' = filter (\<lambda>x. x \<noteq> key) (inorder t)"
proof (cases "t = Null")
  case True
  then show ?thesis by (simp add: Delete_def valid_def)
next
  case False
  from assms have "invc t" "invh t" "sorted_wrt (<) (inorder t)" by (auto simp: valid_def)
  from DeleteRec_post [OF del_pre_invc [OF False this]]
  obtain r0 where r0: "DeleteRec t key = Some r0" and ok: "del_ok t key r0" by blast
  have "(case r0 of Null \<Rightarrow> Null | Node ref red l r \<Rightarrow> Node ref False l r) = blacken r0"
    by (cases r0) auto
  with r0 False have "Delete t key = Some (blacken r0)" by (simp add: Delete_def)
  moreover from ok \<open>sorted_wrt (<) (inorder t)\<close> have "valid (blacken r0)"
    by (intro blacken_valid) (auto simp: del_ok_def sorted_wrt_filter)
  ultimately show ?thesis using ok by (simp add: del_ok_def)
qed

lemma sorted_I1: "sorted_wrt (<) (inorder t) \<Longrightarrow> I1 t"
  by (induction t) (auto simp: sorted_wrt_append keys_def)

lemma invc_I3: "invc t \<Longrightarrow> I3 t"
  by (induction t) auto

lemma invc_I4: "invc t \<Longrightarrow> I4 t"
  by (induction t) auto

lemma invc_I4_left_spine: "invc t \<Longrightarrow> I4_left_spine t"
  by (induction t) (auto dest: invc_children)

lemma black_counts_bh: "invh t \<Longrightarrow> set (black_counts t) = {bh t}"
  by (induction t) auto

lemma invh_I5: "invh t \<Longrightarrow> I5 t"
  by (simp add: I5_def black_counts_bh)

lemma valid_invariants:
  "valid t \<Longrightarrow> I1 t \<and> I2 t \<and> I3 t \<and> I4 t \<and> I4_left_spine t \<and> I5 t"
  by (simp add: valid_def sorted_I1 invc_I3 invc_I4 invc_I4_left_spine invh_I5 I2_def)

section \<open>Reachable states\<close>

lemma reach_valid: "reach t S \<Longrightarrow> valid t \<and> set (inorder t) = S"
proof (induction rule: reach.induct)
  case reach_empty
  show ?case by (simp add: valid_def)
next
  case (reach_Insert t S ref b t')
  with Insert_post [of t ref] show ?case by auto
next
  case (reach_Delete t S key t')
  with Delete_post [of t key] show ?case by auto
qed

text \<open>Three concrete states: after inserting 20; 20, 10, 30; and 20, 10, 30, 5.\<close>

lemma reach_20: "reach (Node (VoidRef 20) False Null Null) {20}"
proof -
  have "Insert Null (VoidRef 20) = Some (True, Node (VoidRef 20) False Null Null)"
    by code_simp
  from reach_Insert [OF reach_empty this] show ?thesis by simp
qed

lemma reach_20_10_30:
  "reach (Node (VoidRef 20) False (Node (VoidRef 10) False Null Null)
      (Node (VoidRef 30) False Null Null)) {20, 10, 30}"
proof -
  have a: "Insert (Node (VoidRef 20) False Null Null) (VoidRef 10)
      = Some (True, Node (VoidRef 20) False (Node (VoidRef 10) True Null Null) Null)"
    by code_simp
  have b: "Insert (Node (VoidRef 20) False (Node (VoidRef 10) True Null Null) Null) (VoidRef 30)
      = Some (True, Node (VoidRef 20) False (Node (VoidRef 10) False Null Null)
          (Node (VoidRef 30) False Null Null))"
    by code_simp
  from reach_Insert [OF reach_Insert [OF reach_20 a] b] show ?thesis
    by (simp add: insert_commute)
qed

lemma reach_20_10_30_5:
  "reach (Node (VoidRef 20) False
      (Node (VoidRef 10) False (Node (VoidRef 5) True Null Null) Null)
      (Node (VoidRef 30) False Null Null)) {20, 10, 30, 5}"
proof -
  have "Insert (Node (VoidRef 20) False (Node (VoidRef 10) False Null Null)
      (Node (VoidRef 30) False Null Null)) (VoidRef 5)
      = Some (True, Node (VoidRef 20) False
          (Node (VoidRef 10) False (Node (VoidRef 5) True Null Null) Null)
          (Node (VoidRef 30) False Null Null))"
    by code_simp
  from reach_Insert [OF reach_20_10_30 this] show ?thesis
    by (simp add: insert_commute)
qed

section \<open>The claims\<close>

text \<open>
  I1 to I5 alone are not preserved by \<open>Insert\<close>: a black root with two red children satisfies
  them, is not a reachable state, and inserting 5 leaves the node 20 with a red right child
  and no left child. The claims below are therefore about reachable states.
\<close>

lemma invariants_need_reachability:
  "I1 (Node (VoidRef 20) False (Node (VoidRef 10) True Null Null) (Node (VoidRef 30) True Null Null))
   \<and> I2 (Node (VoidRef 20) False (Node (VoidRef 10) True Null Null) (Node (VoidRef 30) True Null Null))
   \<and> I3 (Node (VoidRef 20) False (Node (VoidRef 10) True Null Null) (Node (VoidRef 30) True Null Null))
   \<and> I4 (Node (VoidRef 20) False (Node (VoidRef 10) True Null Null) (Node (VoidRef 30) True Null Null))
   \<and> I4_left_spine (Node (VoidRef 20) False (Node (VoidRef 10) True Null Null)
        (Node (VoidRef 30) True Null Null))
   \<and> I5 (Node (VoidRef 20) False (Node (VoidRef 10) True Null Null) (Node (VoidRef 30) True Null Null))
   \<and> Insert (Node (VoidRef 20) False (Node (VoidRef 10) True Null Null)
        (Node (VoidRef 30) True Null Null)) (VoidRef 5)
      = Some (True, Node (VoidRef 10) False (Node (VoidRef 5) False Null Null)
          (Node (VoidRef 20) False Null (Node (VoidRef 30) True Null Null)))
   \<and> \<not> I3 (Node (VoidRef 10) False (Node (VoidRef 5) False Null Null)
          (Node (VoidRef 20) False Null (Node (VoidRef 30) True Null Null)))"
proof -
  have "Insert (Node (VoidRef 20) False (Node (VoidRef 10) True Null Null)
        (Node (VoidRef 30) True Null Null)) (VoidRef 5)
      = Some (True, Node (VoidRef 10) False (Node (VoidRef 5) False Null Null)
          (Node (VoidRef 20) False Null (Node (VoidRef 30) True Null Null)))"
    by code_simp
  then show ?thesis by (simp add: I2_def I5_def keys_def)
qed

text \<open>
  C1. From every reachable state, \<open>Insert\<close> of any key and \<open>Delete\<close> of any key return, and
  the tree they leave satisfies I1 (BST order, unique keys), I2 (black root), I3 (a red
  right child implies a red left child), I4 (no red node whose left child is red, which
  includes the left-spine formula \<open>I4_left_spine\<close>) and I5 (the same number of black links on
  every path from the root to a null link).
\<close>

theorem mutations_preserve_invariants:
  assumes "reach t S"
  shows "(\<exists>t'. Insert t ref = Some (True, t') \<and> I1 t' \<and> I2 t' \<and> I3 t' \<and> I4 t' \<and> I4_left_spine t' \<and> I5 t')
    \<and> (\<exists>t'. Delete t key = Some t' \<and> I1 t' \<and> I2 t' \<and> I3 t' \<and> I4 t' \<and> I4_left_spine t' \<and> I5 t')"
proof -
  from reach_valid [OF assms] have v: "valid t" ..
  from Insert_post [OF v, of ref] obtain t1 where "Insert t ref = Some (True, t1)" "valid t1"
    by blast
  moreover from Delete_post [OF v, of key] obtain t2 where "Delete t key = Some t2" "valid t2"
    by blast
  ultimately show ?thesis using valid_invariants by blast
qed

theorem mutations_preserve_invariants_witness:
  "reach (Node (VoidRef 20) False (Node (VoidRef 10) False Null Null)
      (Node (VoidRef 30) False Null Null)) {20, 10, 30}
   \<and> (\<exists>t'. Insert (Node (VoidRef 20) False (Node (VoidRef 10) False Null Null)
             (Node (VoidRef 30) False Null Null)) (VoidRef 25) = Some (True, t')
          \<and> I1 t' \<and> I2 t' \<and> I3 t' \<and> I4 t' \<and> I4_left_spine t' \<and> I5 t')
   \<and> (\<exists>t'. Delete (Node (VoidRef 20) False (Node (VoidRef 10) False Null Null)
             (Node (VoidRef 30) False Null Null)) 20 = Some t'
          \<and> I1 t' \<and> I2 t' \<and> I3 t' \<and> I4 t' \<and> I4_left_spine t' \<and> I5 t')"
  using mutations_preserve_invariants [OF reach_20_10_30, of "VoidRef 25" 20] reach_20_10_30
  by simp

lemma LookUp_always_null: "LookUp t key = None"
  by (induction t) auto

text \<open>
  C2. \<open>LookUp\<close> should return the value attached to a key that is present. The loop has no
  branch for an equal key and leaves only on a null pointer, so the function returns
  \<^verbatim>\<open>nullptr\<close> for a key that was just inserted.
\<close>

theorem LookUp_present_key_returns_null:
  "Insert Null (VoidRef 10) = Some (True, Node (VoidRef 10) False Null Null)
   \<and> LookUp (Node (VoidRef 10) False Null Null) 10 = None"
  by code_simp

lemma spec_is_red_eq: "spec_is_red t = IsRed t"
  by (cases t) auto

lemma spec_rotate_left_eq: "spec_rotate_left N = RotateLeft N"
  by (cases N rule: RotateLeft.cases) (auto simp: spec_rotate_left_def)

lemma spec_rotate_right_eq: "spec_rotate_right N = RotateRight N"
  by (cases N rule: RotateRight.cases) (auto simp: spec_rotate_right_def)

lemma spec_color_flip_eq: "spec_color_flip N = ColorFlip N"
proof (cases N)
  case Null
  then show ?thesis by (simp add: spec_color_flip_def)
next
  case (Node a c l r)
  then show ?thesis by (cases l; cases r) (auto simp: spec_color_flip_def)
qed

lemma spec_fix_a_eq: "spec_fix_a = fix_a"
  by (rule ext) (simp add: spec_fix_a_def fix_a_def spec_is_red_eq spec_rotate_left_eq)

lemma spec_fix_b_eq: "spec_fix_b = fix_b"
  by (rule ext) (simp add: spec_fix_b_def fix_b_def spec_is_red_eq spec_rotate_right_eq)

lemma spec_fix_c_eq: "spec_fix_c = fix_c"
  by (rule ext) (simp add: spec_fix_c_def fix_c_def spec_is_red_eq spec_color_flip_eq)

lemma spec_fixup_eq: "spec_fixup N = insert_fixup N"
  unfolding spec_fixup_def insert_fixup_def spec_fix_a_eq spec_fix_b_eq spec_fix_c_eq ..

text \<open>
  The place of (c) in the triple shows in the result: on a black node whose children are
  both red and whose left child has a red left child, the flip taken first leaves the two
  reds in a row. Steps (a) and (b) never both fire on one node, before or after each
  other, so their order cannot show.
\<close>

lemma flip_first_differs:
  "spec_fixup (Node (VoidRef 30) False
       (Node (VoidRef 20) True (Node (VoidRef 10) True Null Null) Null)
       (Node (VoidRef 40) True Null Null))
     = Some (Node (VoidRef 20) True (Node (VoidRef 10) False Null Null)
         (Node (VoidRef 30) False Null (Node (VoidRef 40) True Null Null)))
   \<and> spec_fixup_flip_first (Node (VoidRef 30) False
       (Node (VoidRef 20) True (Node (VoidRef 10) True Null Null) Null)
       (Node (VoidRef 40) True Null Null))
     = Some (Node (VoidRef 30) True
         (Node (VoidRef 20) False (Node (VoidRef 10) True Null Null) Null)
         (Node (VoidRef 40) False Null Null))"
  by (simp add: spec_fixup_def spec_fixup_flip_first_def spec_fix_a_def spec_fix_b_def
      spec_fix_c_def spec_rotate_left_def spec_rotate_right_def spec_color_flip_def)

lemma fix_a_b_commute: "spec_fix_a N \<bind> spec_fix_b = spec_fix_b N \<bind> spec_fix_a"
proof (cases N)
  case Null
  then show ?thesis by (simp add: spec_fix_a_def spec_fix_b_def)
next
  case (Node a c l r)
  then show ?thesis
    by (cases l; cases r)
      (auto simp: spec_fix_a_def spec_fix_b_def spec_rotate_left_def spec_rotate_right_def
        spec_is_red_eq)
qed

text \<open>
  C3. Without \<^verbatim>\<open>USE_234_TREE\<close>, every frame of \<open>InsertRec\<close> that recurses (or replaces the
  payload) then applies (a) rotate-left when the right child is red and the left is not,
  (b) rotate-right when the left child and its left child are red, (c) colour flip when both
  children are red, in this order, and returns the resulting subtree root: \<open>InsertRec\<close> is
  the function \<open>spec_insert\<close>, which is written from the words of the specification's
  sections 4.1 and 4.2 alone.
\<close>

theorem InsertRec_applies_fixup_triple: "InsertRec t ref = spec_insert t ref"
proof (induction t)
  case Null
  show ?case by (simp add: NewNode_def)
next
  case (Node nref red l r)
  show ?case
    unfolding InsertRec_Node spec_insert.simps Node.IH spec_fixup_eq ..
qed

lemma sorted_hd_le:
  "sorted_wrt (<) xs \<Longrightarrow> x \<in> set xs \<Longrightarrow> hd xs \<le> x" for x :: "32 word"
  by (cases xs) auto

text \<open>
  C4. The frame of \<open>DeleteRec\<close> that holds the key \<open>k\<close> in its node, with a left child that
  is not red (otherwise the frame rotates right and meets the node again one level down)
  and a right child that is not null, first moves a red link to the right if it has to;
  when the node with \<open>k\<close> is still the current one, it takes the payload of
  \<open>FindMin\<close> of the right subtree, replaces the right subtree by its \<open>DeleteMin\<close>, and fixes
  up. The key taken is the smallest key of the subtree that is greater than \<open>k\<close>,
  \<open>DeleteMin\<close> removes exactly that key from the right subtree, and the result keeps the
  keys other than \<open>k\<close> in order, balanced, with the colour invariants of \<open>del_ok\<close>.
\<close>

theorem Delete_copies_successor:
  assumes inv: "invc l" "invc r" "invh (Node a c l r)"
      "sorted_wrt (<) (inorder (Node a c l r))" "IsRed r \<longrightarrow> \<not> c"
    and at: "\<not> IsRed l" "r \<noteq> Null"
    and n2: "(if \<not> IsRed r \<and> \<not> IsRed (pLeft r) then MoveRedRight (Node a c l r)
              else Some (Node a c l r)) = Some (Node a2 c2 l2 r2)"
    and k: "Key a2 = Key a"
  shows "\<exists>m r' t'. FindMin r2 = Some m \<and> DeleteMin r2 = Some r'
     \<and> DeleteRec (Node a c l r) (Key a) = FixUp (Node (Ref m) c2 l2 r')
     \<and> FixUp (Node (Ref m) c2 l2 r') = Some t'
     \<and> Key a < Key (Ref m) \<and> Key (Ref m) \<in> set (inorder (Node a c l r))
     \<and> (\<forall>x \<in> set (inorder (Node a c l r)). Key a < x \<longrightarrow> Key (Ref m) \<le> x)
     \<and> inorder r' = tl (inorder r2) \<and> Key (Ref m) = hd (inorder r2)
     \<and> del_ok (Node a c l r) (Key a) t'"
proof -
  let ?n = "Node a c l r"
  from inv at have pre: "del_pre ?n (Key a)" by (simp add: del_pre_def)
  from DeleteRec_post [OF pre] obtain t' where t': "DeleteRec ?n (Key a) = Some t'"
    and ok: "del_ok ?n (Key a) t'"
    by blast
  from inv(3) have hr: "invh r" by simp
  have p: "r2 \<noteq> Null \<and> invc r2 \<and> invh r2 \<and> (IsRed r2 \<or> IsRed (pLeft r2))
      \<and> inorder (Node a2 c2 l2 r2) = inorder ?n"
  proof (cases "\<not> IsRed r \<and> \<not> IsRed (pLeft r)")
    case True
    with n2 have m: "MoveRedRight ?n = Some (Node a2 c2 l2 r2)" by simp
    from True at inv MoveRedRight_post [of r l a c]
    obtain a1 c1 l1 r1 where m1: "MoveRedRight ?n = Some (Node a1 c1 l1 r1)"
      and q: "r1 \<noteq> Null" "invh (Node a1 c1 l1 r1)"
        "inorder (Node a1 c1 l1 r1) = inorder ?n"
        "(a1 = a \<and> IsRed r1 \<and> invc r1 \<and> c1 = (\<not> c) \<and> IsRed l1 \<and> \<not> IsRed (pLeft l1))
          \<or> (Key a1 < Key a \<and> Ref r1 = a \<and> \<not> IsRed r1 \<and> \<not> IsRed (pLeft r1)
            \<and> IsRed (pRight r1) \<and> c1 = c \<and> \<not> IsRed l1)"
      by (simp only: inorder.simps) blast
    from m m1 have e: "a1 = a2" "c1 = c2" "l1 = l2" "r1 = r2" by simp_all
    from q(4) k e have "IsRed r2 \<and> invc r2" by auto
    with q e show ?thesis by simp
  next
    case False
    with n2 have "a2 = a" "c2 = c" "l2 = l" "r2 = r" by simp_all
    with False at inv(2) hr show ?thesis by simp
  qed
  from p FindMin_post [of r2] obtain m where m: "FindMin r2 = Some m"
    "Key (Ref m) = hd (inorder r2)"
    by blast
  from p DeleteMin_post [of r2] obtain r' where r': "DeleteMin r2 = Some r'"
    "inorder r' = tl (inorder r2)"
    by blast
  have eq: "DeleteRec ?n (Key a) = FixUp (Node (Ref m) c2 l2 r')"
    using at n2 k m(1) r'(1) p
    by (subst DeleteRec.simps) (auto split: if_splits)
  from p inv(4) have s2: "sorted_wrt (<) (inorder l2 @ Key a2 # inorder r2)" by simp
  from p have mem: "Key (Ref m) \<in> set (inorder r2)" using m(2) by simp
  from s2 k have gt: "\<forall>x \<in> set (inorder r2). Key a < x" and lt: "\<forall>x \<in> set (inorder l2). x < Key a"
    and sr2: "sorted_wrt (<) (inorder r2)"
    by (auto simp: sorted_wrt_append)
  have set_eq: "set (inorder ?n) = set (inorder l2) \<union> {Key a} \<union> set (inorder r2)"
  proof -
    from p have "set (inorder ?n) = set (inorder (Node a2 c2 l2 r2))" by simp
    with k show ?thesis by auto
  qed
  have least: "\<forall>x \<in> set (inorder ?n). Key a < x \<longrightarrow> Key (Ref m) \<le> x"
  proof (intro ballI impI)
    fix x assume "x \<in> set (inorder ?n)" "Key a < x"
    with set_eq lt have "x \<in> set (inorder r2)" by auto
    from sorted_hd_le [OF sr2 this] m(2) show "Key (Ref m) \<le> x" by simp
  qed
  from mem gt have "Key a < Key (Ref m)" by blast
  moreover from mem set_eq have "Key (Ref m) \<in> set (inorder ?n)" by blast
  moreover from eq t' have "FixUp (Node (Ref m) c2 l2 r') = Some t'" by simp
  ultimately show ?thesis using m r' eq least ok by blast
qed

text \<open>
  Scenario 4 of the specification: in the tree built from 50, 25, 75, 10, 30, 60, 80, 5, 15,
  27, 35 the root 50 has a red left child, so the root frame rotates and the node 50 is met
  again as a red node with the subtrees of 30 and 75. There the successor is 60.
\<close>

theorem Delete_copies_successor_witness:
  "invc (Node (VoidRef 30) False (Node (VoidRef 27) False Null Null)
      (Node (VoidRef 35) False Null Null))
   \<and> MoveRedRight (Node (VoidRef 50) True
        (Node (VoidRef 30) False (Node (VoidRef 27) False Null Null)
          (Node (VoidRef 35) False Null Null))
        (Node (VoidRef 75) False (Node (VoidRef 60) False Null Null)
          (Node (VoidRef 80) False Null Null)))
      = Some (Node (VoidRef 50) False
        (Node (VoidRef 30) True (Node (VoidRef 27) False Null Null)
          (Node (VoidRef 35) False Null Null))
        (Node (VoidRef 75) True (Node (VoidRef 60) False Null Null)
          (Node (VoidRef 80) False Null Null)))
   \<and> (\<exists>m r' t'. FindMin (Node (VoidRef 75) True (Node (VoidRef 60) False Null Null)
          (Node (VoidRef 80) False Null Null)) = Some m
      \<and> DeleteMin (Node (VoidRef 75) True (Node (VoidRef 60) False Null Null)
          (Node (VoidRef 80) False Null Null)) = Some r'
      \<and> Key (Ref m) = 60
      \<and> DeleteRec (Node (VoidRef 50) True
        (Node (VoidRef 30) False (Node (VoidRef 27) False Null Null)
          (Node (VoidRef 35) False Null Null))
        (Node (VoidRef 75) False (Node (VoidRef 60) False Null Null)
          (Node (VoidRef 80) False Null Null))) 50 = Some t'
      \<and> inorder t' = [27, 30, 35, 60, 75, 80])"
proof -
  let ?l = "Node (VoidRef 30) False (Node (VoidRef 27) False Null Null)
      (Node (VoidRef 35) False Null Null)"
  let ?r = "Node (VoidRef 75) False (Node (VoidRef 60) False Null Null)
      (Node (VoidRef 80) False Null Null)"
  let ?l2 = "Node (VoidRef 30) True (Node (VoidRef 27) False Null Null)
      (Node (VoidRef 35) False Null Null)"
  let ?r2 = "Node (VoidRef 75) True (Node (VoidRef 60) False Null Null)
      (Node (VoidRef 80) False Null Null)"
  have 1: "invc ?l" "invc ?r" "invh (Node (VoidRef 50) True ?l ?r)"
    "sorted_wrt (<) (inorder (Node (VoidRef 50) True ?l ?r))" "IsRed ?r \<longrightarrow> \<not> True"
    "\<not> IsRed ?l" "?r \<noteq> Null"
    by simp_all
  have mv: "MoveRedRight (Node (VoidRef 50) True ?l ?r) = Some (Node (VoidRef 50) False ?l2 ?r2)"
    by (simp add: MoveRedRight_def)
  then have 2: "(if \<not> IsRed ?r \<and> \<not> IsRed (pLeft ?r) then MoveRedRight (Node (VoidRef 50) True ?l ?r)
      else Some (Node (VoidRef 50) True ?l ?r)) = Some (Node (VoidRef 50) False ?l2 ?r2)"
    by simp
  have 3: "Key (VoidRef 50) = Key (VoidRef 50)" ..
  from Delete_copies_successor [OF 1 2 3]
  obtain m r' t' where f: "FindMin ?r2 = Some m" "DeleteMin ?r2 = Some r'"
    "DeleteRec (Node (VoidRef 50) True ?l ?r) (Key (VoidRef 50)) = FixUp (Node (Ref m) False ?l2 r')"
    "FixUp (Node (Ref m) False ?l2 r') = Some t'"
    "Key (Ref m) = hd (inorder ?r2)"
    "del_ok (Node (VoidRef 50) True ?l ?r) (Key (VoidRef 50)) t'"
    by blast
  from f(5) have "Key (Ref m) = 60" by simp
  moreover from f(3,4) have "DeleteRec (Node (VoidRef 50) True ?l ?r) 50 = Some t'" by simp
  moreover from f(6) have "inorder t' = [27, 30, 35, 60, 75, 80]" by (simp add: del_ok_def)
  ultimately show ?thesis using 1(1) mv f(1,2) by blast
qed

text \<open>
  C5. For a key that is not in the tree, the specification says that \<open>Delete\<close> reports
  was-present = false and leaves the tree unchanged. \<open>Delete\<close> returns nothing, and on the
  state reached by inserting 20, 10, 30, 5, deleting the absent key 40 returns a tree of
  another shape: the red moves made on the way down are not undone on the way up.
\<close>

theorem absent_Delete_restructures:
  "reach (Node (VoidRef 20) False
      (Node (VoidRef 10) False (Node (VoidRef 5) True Null Null) Null)
      (Node (VoidRef 30) False Null Null)) {20, 10, 30, 5}
   \<and> (40 :: 32 word) \<notin> {20, 10, 30, 5}
   \<and> Delete (Node (VoidRef 20) False
      (Node (VoidRef 10) False (Node (VoidRef 5) True Null Null) Null)
      (Node (VoidRef 30) False Null Null)) 40
     = Some (Node (VoidRef 10) False (Node (VoidRef 5) False Null Null)
        (Node (VoidRef 30) False (Node (VoidRef 20) True Null Null) Null))
   \<and> Node (VoidRef 10) False (Node (VoidRef 5) False Null Null)
        (Node (VoidRef 30) False (Node (VoidRef 20) True Null Null) Null)
     \<noteq> Node (VoidRef 20) False
      (Node (VoidRef 10) False (Node (VoidRef 5) True Null Null) Null)
      (Node (VoidRef 30) False Null Null)"
proof -
  have "Delete (Node (VoidRef 20) False
      (Node (VoidRef 10) False (Node (VoidRef 5) True Null Null) Null)
      (Node (VoidRef 30) False Null Null)) 40
     = Some (Node (VoidRef 10) False (Node (VoidRef 5) False Null Null)
        (Node (VoidRef 30) False (Node (VoidRef 20) True Null Null) Null))"
    by code_simp
  with reach_20_10_30_5 show ?thesis by simp
qed

text \<open>
  C5, amended. For a key that is not in a reachable tree, \<open>Delete\<close> returns (with no
  result value) a reachable tree with the same keys in the same in-order sequence; on the
  empty tree it changes nothing.
\<close>

theorem absent_Delete_keeps_keys:
  assumes "reach t S" "key \<notin> S"
  shows "(\<exists>t'. Delete t key = Some t' \<and> inorder t' = inorder t \<and> reach t' S)
    \<and> Delete Null key = Some Null"
proof -
  from reach_valid [OF assms(1)] have v: "valid t" and s: "set (inorder t) = S" by auto
  from Delete_post [OF v, of key] obtain t' where d: "Delete t key = Some t'"
    and io: "inorder t' = filter (\<lambda>x. x \<noteq> key) (inorder t)"
    by blast
  from s assms(2) have "filter (\<lambda>x. x \<noteq> key) (inorder t) = inorder t"
    by (auto simp: filter_id_conv)
  moreover from reach_Delete [OF assms(1) d] assms(2) have "reach t' S" by simp
  moreover have "Delete Null key = Some Null" by (simp add: Delete_def)
  ultimately show ?thesis using d io by simp
qed

theorem absent_Delete_keeps_keys_witness:
  "reach (Node (VoidRef 20) False Null Null) {20} \<and> (7 :: 32 word) \<notin> {20}
   \<and> (\<exists>t'. Delete (Node (VoidRef 20) False Null Null) 7 = Some t'
         \<and> inorder t' = inorder (Node (VoidRef 20) False Null Null)
         \<and> reach t' {20})
   \<and> Delete Null (7 :: 32 word) = Some Null"
proof -
  have "(7 :: 32 word) \<notin> {20}" by simp
  from absent_Delete_keeps_keys [OF reach_20 this] reach_20 show ?thesis by simp
qed

lemma emitted_keys_append: "emitted_keys (xs @ ys) = emitted_keys xs @ emitted_keys ys"
  by (induction xs rule: emitted_keys.induct) auto

lemma TraverseRec_keys:
  "t \<noteq> Null \<Longrightarrow> \<exists>out p. TraverseRec t prev = Some (out, p) \<and> emitted_keys out = inorder t"
proof (induction t arbitrary: prev)
  case Null
  then show ?case by simp
next
  case (Node a c l r)
  have "\<exists>o1 p1. (if l \<noteq> Null then TraverseRec l prev else Some ([], prev)) = Some (o1, p1)
      \<and> emitted_keys o1 = inorder l"
    using Node.IH(1) [of prev] by (cases "l = Null") auto
  then obtain o1 p1 where 1:
    "(if l \<noteq> Null then TraverseRec l prev else Some ([], prev)) = Some (o1, p1)"
    "emitted_keys o1 = inorder l"
    by blast
  have "\<exists>o2 p2. (if r \<noteq> Null then TraverseRec r (Key a) else Some ([], Key a)) = Some (o2, p2)
      \<and> emitted_keys o2 = inorder r"
    using Node.IH(2) [of "Key a"] by (cases "r = Null") auto
  then obtain o2 p2 where 2:
    "(if r \<noteq> Null then TraverseRec r (Key a) else Some ([], Key a)) = Some (o2, p2)"
    "emitted_keys o2 = inorder r"
    by blast
  have "TraverseRec (Node a c l r) prev
      = Some (o1 @ (if \<not> p1 < Key a then [BadOrder] else []) @ [Line c (Key a)] @ o2, p2)"
    unfolding TraverseRec.simps 1(1) 2(1) by simp
  with 1(2) 2(2) show ?case by (simp add: emitted_keys_append)
qed

text \<open>
  C6. On every reachable tree \<open>Traverse\<close> returns; the keys it prints are the in-order key
  sequence of the tree, strictly ascending, and as a set they are the keys inserted and
  not deleted since.
\<close>

theorem Traverse_sorted_keys:
  assumes "reach t S"
  shows "\<exists>out. Traverse t = Some out \<and> emitted_keys out = inorder t
    \<and> sorted_wrt (<) (emitted_keys out) \<and> set (emitted_keys out) = S"
proof -
  from reach_valid [OF assms] have s: "sorted_wrt (<) (inorder t)" "set (inorder t) = S"
    by (auto simp: valid_def)
  show ?thesis
  proof (cases "t = Null")
    case True
    with s show ?thesis by (simp add: Traverse_def)
  next
    case False
    from TraverseRec_keys [OF False, of 0] obtain out p where
      "TraverseRec t 0 = Some (out, p)" "emitted_keys out = inorder t"
      by blast
    with False s show ?thesis by (simp add: Traverse_def)
  qed
qed

theorem Traverse_sorted_keys_witness:
  "reach (Node (VoidRef 20) False (Node (VoidRef 10) False Null Null)
      (Node (VoidRef 30) False Null Null)) {20, 10, 30}
   \<and> (\<exists>out. Traverse (Node (VoidRef 20) False (Node (VoidRef 10) False Null Null)
        (Node (VoidRef 30) False Null Null)) = Some out
      \<and> emitted_keys out = inorder (Node (VoidRef 20) False (Node (VoidRef 10) False Null Null)
        (Node (VoidRef 30) False Null Null))
      \<and> sorted_wrt (<) (emitted_keys out) \<and> set (emitted_keys out) = {20, 10, 30})"
  using Traverse_sorted_keys [OF reach_20_10_30] reach_20_10_30 by simp

lemma size_inorder: "size t = length (inorder t)"
  by (induction t) auto

lemma insert_fixup_id: "invc (Node a c l r) \<Longrightarrow> insert_fixup (Node a c l r) = Some (Node a c l r)"
  by (cases l) (auto simp: insert_fixup_def fix_a_def fix_b_def fix_c_def)

lemma InsertRec_present:
  "invc t \<Longrightarrow> sorted_wrt (<) (inorder t) \<Longrightarrow> Key ref \<in> set (inorder t) \<Longrightarrow>
   InsertRec t ref = Some t"
proof (induction t)
  case Null
  then show ?case by simp
next
  case (Node a c l r)
  from Node.prems have cl: "invc l" and cr: "invc r"
    and ssl: "sorted_wrt (<) (inorder l)" and ssr: "sorted_wrt (<) (inorder r)"
    and sl: "\<forall>x \<in> set (inorder l). x < Key a" and sr: "\<forall>x \<in> set (inorder r). Key a < x"
    by (auto simp: sorted_wrt_append)
  show ?case
  proof (cases "Key ref = Key a")
    case True
    then have "ref = a" by (simp add: VoidRef_t.expand)
    with insert_fixup_id [OF Node.prems(1)] show ?thesis
      unfolding InsertRec_Node by simp
  next
    case ne: False
    show ?thesis
    proof (cases "Key ref < Key a")
      case True
      with sr Node.prems(3) ne have "Key ref \<in> set (inorder l)" by auto
      from Node.IH(1) [OF cl ssl this] insert_fixup_id [OF Node.prems(1)] True ne
      show ?thesis unfolding InsertRec_Node by simp
    next
      case False
      with sl Node.prems(3) ne have "Key ref \<in> set (inorder r)" by auto
      from Node.IH(2) [OF cr ssr this] insert_fixup_id [OF Node.prems(1)] False ne
      show ?thesis unfolding InsertRec_Node by simp
    qed
  qed
qed

lemma blacken_black: "\<not> IsRed t \<Longrightarrow> blacken t = t"
  by (cases t) auto

lemma Insert_present:
  assumes "valid t" "Key ref \<in> set (inorder t)"
  shows "Insert t ref = Some (True, t)"
proof -
  from Insert_post [OF assms(1), of ref] obtain t' where t': "Insert t ref = Some (True, t')"
    by blast
  from Insert_result [OF t'] obtain r0 where "InsertRec t ref = Some r0" "t' = blacken r0"
    by blast
  moreover from assms have "InsertRec t ref = Some t"
    by (intro InsertRec_present) (auto simp: valid_def)
  ultimately have "t' = t" using assms(1) by (simp add: blacken_black valid_def)
  with t' show ?thesis by simp
qed

text \<open>
  C7. On every reachable tree, a second \<open>Insert\<close> with the same argument returns the tree
  the first one returned: the node that bears the key gets the same payload again, no
  rotation or flip fires and no node is added. The first call adds one node when the key
  is new and none when it is already bound.
\<close>

theorem Insert_twice_same_tree:
  assumes "reach t S"
  shows "\<exists>t1. Insert t ref = Some (True, t1) \<and> Insert t1 ref = Some (True, t1)
    \<and> size t1 = size t + (if Key ref \<in> S then 0 else 1)"
proof -
  from reach_valid [OF assms] have v: "valid t" and s: "set (inorder t) = S" by auto
  from Insert_post [OF v, of ref] obtain t1 where t1: "Insert t ref = Some (True, t1)"
    "valid t1" "set (inorder t1) = insert (Key ref) (set (inorder t))"
    by blast
  from t1(2,3) have "Insert t1 ref = Some (True, t1)" by (intro Insert_present) auto
  moreover have "size t1 = size t + (if Key ref \<in> S then 0 else 1)"
  proof -
    from v t1(2) have "distinct (inorder t)" "distinct (inorder t1)"
      by (auto simp: valid_def strict_sorted_iff)
    then have "length (inorder t) = card (set (inorder t))"
      "length (inorder t1) = card (set (inorder t1))"
      by (simp_all add: distinct_card)
    with t1(3) s show ?thesis
      by (auto simp: size_inorder insert_absorb)
  qed
  ultimately show ?thesis using t1(1) by blast
qed

theorem Insert_twice_same_tree_witness:
  "reach (Node (VoidRef 20) False Null Null) {20}
   \<and> (\<exists>t1. Insert (Node (VoidRef 20) False Null Null) (VoidRef 10) = Some (True, t1)
        \<and> Insert t1 (VoidRef 10) = Some (True, t1)
        \<and> size t1 = size (Node (VoidRef 20) False Null Null) + 1)"
  using Insert_twice_same_tree [OF reach_20, of "VoidRef 10"] reach_20 by simp

text \<open>
  C8. The specification has \<open>Insert\<close> return the prior value on a replacement and nothing on
  a fresh insertion. \<^verbatim>\<open>Insert\<close> ends in \<^verbatim>\<open>return true\<close> on both paths: inserting 10 into the
  empty tree and inserting 10 again return the same value.
\<close>

theorem Insert_same_result_fresh_and_replaced:
  "Insert Null (VoidRef 10) = Some (True, Node (VoidRef 10) False Null Null)
   \<and> Insert (Node (VoidRef 10) False Null Null) (VoidRef 10)
     = Some (True, Node (VoidRef 10) False Null Null)"
  by code_simp

text \<open>C8, amended. Every call of \<open>Insert\<close> that returns, returns \<^verbatim>\<open>true\<close>.\<close>

theorem Insert_returns_true: "Insert t ref = Some res \<Longrightarrow> fst res = True"
  using Insert_result [of t ref "fst res" "snd res"] by simp

theorem Insert_returns_true_witness:
  "Insert (Node (VoidRef 10) False Null Null) (VoidRef 10)
     = Some (True, Node (VoidRef 10) False Null Null)
   \<and> fst (True, Node (VoidRef 10) False Null Null) = True"
proof -
  have e: "Insert (Node (VoidRef 10) False Null Null) (VoidRef 10)
     = Some (True, Node (VoidRef 10) False Null Null)"
    by code_simp
  from Insert_returns_true [OF e] e show ?thesis by simp
qed

lemma Free_only_null: "set (Free t) \<subseteq> {Null}"
  by (induction t) auto

text \<open>
  C9. \<open>FreeAll\<close> should release every node once, children before their parent, and leave the
  root null. \<^verbatim>\<open>Free\<close> sets its pointer to \<^verbatim>\<open>nullptr\<close> before \<^verbatim>\<open>delete pNode\<close>, so every
  \<^verbatim>\<open>delete\<close> gets the null pointer and no node is released. On the tree with the one key
  10 the single \<^verbatim>\<open>delete\<close> is applied to \<^verbatim>\<open>nullptr\<close>, where the node itself should have been
  released; the root is set to null.
\<close>

theorem FreeAll_releases_no_node:
  "FreeAll (Node (VoidRef 10) False Null Null) = ([Null], Null)
   \<and> spec_release_order (Node (VoidRef 10) False Null Null) = [Node (VoidRef 10) False Null Null]"
  by (simp add: FreeAll_def)

lemma FindParent_absent_fails: "Key ref \<notin> set (inorder t) \<Longrightarrow> FindParent t ref = None"
proof (induction t)
  case Null
  show ?case by simp
next
  case (Node a c l r)
  then have "FindParent l ref = None" "FindParent r ref = None" by auto
  with Node.prems show ?case by (cases l; cases r) auto
qed

lemma FindParent_returns_parent:
  "FindParent t ref = Some p \<Longrightarrow>
   p \<noteq> Null \<and> pLeft p \<noteq> Null
   \<and> (Key (Ref (pLeft p)) = Key ref \<or> (pRight p \<noteq> Null \<and> Key (Ref (pRight p)) = Key ref))"
proof (induction t)
  case Null
  then show ?case by simp
next
  case (Node a c l r)
  then show ?case by (cases l; cases r) (auto split: if_splits)
qed

lemma FindParent_step:
  "l \<noteq> Null \<Longrightarrow> r \<noteq> Null \<Longrightarrow> Key (Ref l) \<noteq> Key ref \<Longrightarrow> Key (Ref r) \<noteq> Key ref \<Longrightarrow>
   FindParent (Node a c l r) ref
     = (if Key ref < Key a then FindParent l ref else FindParent r ref)"
  by (subst FindParent.simps) (auto split: LLTB_t.splits simp del: FindParent.simps)

text \<open>
  C10. The specification says that \<open>FindParent\<close> can mis-branch when the searched key lies
  between the node and its child. It cannot: at a node with both children, a key strictly
  between the node's key and a child's key, and not the key of the other child, is searched
  on in that child.
\<close>

theorem FindParent_follows_search_order:
  "\<not> (\<exists>a c l r ref. l \<noteq> Null \<and> r \<noteq> Null \<and>
        ((Key (Ref l) < Key ref \<and> Key ref < Key a \<and> Key (Ref r) \<noteq> Key ref
            \<and> FindParent (Node a c l r) ref \<noteq> FindParent l ref)
       \<or> (Key a < Key ref \<and> Key ref < Key (Ref r) \<and> Key (Ref l) \<noteq> Key ref
            \<and> FindParent (Node a c l r) ref \<noteq> FindParent r ref)))"
proof
  assume "\<exists>a c l r ref. l \<noteq> Null \<and> r \<noteq> Null \<and>
        ((Key (Ref l) < Key ref \<and> Key ref < Key a \<and> Key (Ref r) \<noteq> Key ref
            \<and> FindParent (Node a c l r) ref \<noteq> FindParent l ref)
       \<or> (Key a < Key ref \<and> Key ref < Key (Ref r) \<and> Key (Ref l) \<noteq> Key ref
            \<and> FindParent (Node a c l r) ref \<noteq> FindParent r ref))"
  then obtain a c l r ref where n: "l \<noteq> Null" "r \<noteq> Null"
    and d: "(Key (Ref l) < Key ref \<and> Key ref < Key a \<and> Key (Ref r) \<noteq> Key ref
            \<and> FindParent (Node a c l r) ref \<noteq> FindParent l ref)
       \<or> (Key a < Key ref \<and> Key ref < Key (Ref r) \<and> Key (Ref l) \<noteq> Key ref
            \<and> FindParent (Node a c l r) ref \<noteq> FindParent r ref)"
    by blast
  from d have ne: "Key (Ref l) \<noteq> Key ref" "Key (Ref r) \<noteq> Key ref" by auto
  from FindParent_step [OF n ne, of a c] d show False
    by (auto simp del: FindParent.simps split: if_splits dest: less_asym)
qed

text \<open>
  C10, amended. \<open>FindParent\<close> reads the keys of both children without a null check: it
  dereferences a null link for every key that is not in the tree, as on the reachable tree
  with root 20 and children 10 and 30 for the key 15. It branches in search order: a key
  strictly between a node and one of its children, and not the other child's key, is
  searched on in that child. \<open>Insert\<close> calls \<open>FindParent\<close> on the new root whenever the
  root's key after rebalancing is not the inserted key, and fails when that call does.
\<close>

theorem FindParent_unsafe_in_search_order:
  "reach (Node (VoidRef 20) False (Node (VoidRef 10) False Null Null)
      (Node (VoidRef 30) False Null Null)) {20, 10, 30}
   \<and> FindParent (Node (VoidRef 20) False (Node (VoidRef 10) False Null Null)
      (Node (VoidRef 30) False Null Null)) (VoidRef 15) = None
   \<and> (Key aref \<notin> set (inorder at) \<longrightarrow> FindParent at aref = None)
   \<and> (l \<noteq> Null \<and> r \<noteq> Null \<and> Key (Ref l) < Key lref \<and> Key lref < Key a
        \<and> Key (Ref r) \<noteq> Key lref \<longrightarrow>
        FindParent (Node a c l r) lref = FindParent l lref)
   \<and> (l' \<noteq> Null \<and> r' \<noteq> Null \<and> Key a' < Key rref \<and> Key rref < Key (Ref r')
        \<and> Key (Ref l') \<noteq> Key rref \<longrightarrow>
        FindParent (Node a' c' l' r') rref = FindParent r' rref)
   \<and> (InsertRec t ref = Some (Node nref red nl nr) \<and> Key nref \<noteq> Key ref \<longrightarrow>
        Insert t ref = do {
          parent \<leftarrow> FindParent (Node nref False nl nr) ref;
          _ \<leftarrow> print_parent parent ref;
          Some (True, Node nref False nl nr) })"
proof -
  have 1: "FindParent (Node (VoidRef 20) False (Node (VoidRef 10) False Null Null)
      (Node (VoidRef 30) False Null Null)) (VoidRef 15) = None"
    by code_simp
  have 2: "Key aref \<notin> set (inorder at) \<longrightarrow> FindParent at aref = None"
    by (simp add: FindParent_absent_fails)
  have 3: "l \<noteq> Null \<and> r \<noteq> Null \<and> Key (Ref l) < Key lref \<and> Key lref < Key a
        \<and> Key (Ref r) \<noteq> Key lref \<longrightarrow>
        FindParent (Node a c l r) lref = FindParent l lref"
  proof
    assume h: "l \<noteq> Null \<and> r \<noteq> Null \<and> Key (Ref l) < Key lref \<and> Key lref < Key a
        \<and> Key (Ref r) \<noteq> Key lref"
    then have "Key (Ref l) \<noteq> Key lref" by auto
    with h FindParent_step [of l r lref a c]
    show "FindParent (Node a c l r) lref = FindParent l lref"
      by (simp del: FindParent.simps)
  qed
  have 4: "l' \<noteq> Null \<and> r' \<noteq> Null \<and> Key a' < Key rref \<and> Key rref < Key (Ref r')
        \<and> Key (Ref l') \<noteq> Key rref \<longrightarrow>
        FindParent (Node a' c' l' r') rref = FindParent r' rref"
  proof
    assume h: "l' \<noteq> Null \<and> r' \<noteq> Null \<and> Key a' < Key rref \<and> Key rref < Key (Ref r')
        \<and> Key (Ref l') \<noteq> Key rref"
    then have "Key (Ref r') \<noteq> Key rref" "\<not> Key rref < Key a'" by auto
    with h FindParent_step [of l' r' rref a' c']
    show "FindParent (Node a' c' l' r') rref = FindParent r' rref"
      by (simp del: FindParent.simps)
  qed
  have 5: "InsertRec t ref = Some (Node nref red nl nr) \<and> Key nref \<noteq> Key ref \<longrightarrow>
        Insert t ref = do {
          parent \<leftarrow> FindParent (Node nref False nl nr) ref;
          _ \<leftarrow> print_parent parent ref;
          Some (True, Node nref False nl nr) }"
    by (simp add: Insert_def Let_def del: FindParent.simps)
  show ?thesis
    by (rule conjI [OF reach_20_10_30 conjI [OF 1 conjI [OF 2 conjI [OF 3 conjI [OF 4 5]]]]])
qed

theorem FindParent_unsafe_in_search_order_witness:
  "Key (VoidRef 15) \<notin> set (inorder (Node (VoidRef 20) False (Node (VoidRef 10) False Null Null)
      (Node (VoidRef 30) False Null Null)))
   \<and> FindParent (Node (VoidRef 20) False (Node (VoidRef 10) False Null Null)
      (Node (VoidRef 30) False Null Null)) (VoidRef 15) = None
   \<and> Key (Ref (Node (VoidRef 10) False Null Null)) < Key (VoidRef 15)
   \<and> Key (VoidRef 15) < Key (VoidRef 20)
   \<and> Key (Ref (Node (VoidRef 30) False Null Null)) \<noteq> Key (VoidRef 15)
   \<and> FindParent (Node (VoidRef 20) False (Node (VoidRef 10) False Null Null)
        (Node (VoidRef 30) False Null Null)) (VoidRef 15)
      = FindParent (Node (VoidRef 10) False Null Null) (VoidRef 15)
   \<and> Key (VoidRef 20) < Key (VoidRef 25)
   \<and> Key (VoidRef 25) < Key (Ref (Node (VoidRef 30) False Null Null))
   \<and> Key (Ref (Node (VoidRef 10) False Null Null)) \<noteq> Key (VoidRef 25)
   \<and> FindParent (Node (VoidRef 20) False (Node (VoidRef 10) False Null Null)
        (Node (VoidRef 30) False Null Null)) (VoidRef 25)
      = FindParent (Node (VoidRef 30) False Null Null) (VoidRef 25)
   \<and> InsertRec (Node (VoidRef 20) False Null Null) (VoidRef 10)
     = Some (Node (VoidRef 20) False (Node (VoidRef 10) True Null Null) Null)
   \<and> Key (VoidRef 20) \<noteq> Key (VoidRef 10)
   \<and> Insert (Node (VoidRef 20) False Null Null) (VoidRef 10) = do {
        parent \<leftarrow> FindParent (Node (VoidRef 20) False (Node (VoidRef 10) True Null Null) Null)
          (VoidRef 10);
        _ \<leftarrow> print_parent parent (VoidRef 10);
        Some (True, Node (VoidRef 20) False (Node (VoidRef 10) True Null Null) Null) }"
proof -
  have e: "InsertRec (Node (VoidRef 20) False Null Null) (VoidRef 10)
     = Some (Node (VoidRef 20) False (Node (VoidRef 10) True Null Null) Null)"
    by code_simp
  have n: "Key (VoidRef 20) \<noteq> Key (VoidRef 10)" by simp
  have f: "FindParent (Node (VoidRef 10) False Null Null) (VoidRef 15) = None"
    "FindParent (Node (VoidRef 30) False Null Null) (VoidRef 25) = None"
    by simp_all
  from FindParent_unsafe_in_search_order
    [of "VoidRef 15" "Node (VoidRef 20) False (Node (VoidRef 10) False Null Null)
        (Node (VoidRef 30) False Null Null)"
      "Node (VoidRef 10) False Null Null" "Node (VoidRef 30) False Null Null"
      "VoidRef 15" "VoidRef 20" False
      "Node (VoidRef 10) False Null Null" "Node (VoidRef 30) False Null Null"
      "VoidRef 20" "VoidRef 25" False
      "Node (VoidRef 20) False Null Null" "VoidRef 10"
      "VoidRef 20" False "Node (VoidRef 10) True Null Null" Null] e n f
  show ?thesis by (auto simp del: FindParent.simps InsertRec.simps)
qed

end
